theory Spec2Isabelle
  imports Main "HOL-Library.AList" "HOL-Library.Multiset"
begin

section \<open>Names and paths\<close>

text \<open>
  A path is the list of its components, outermost first; \<open>Path.name\<close> is the last
  component, \<open>Path.parent\<close> drops it and \<open>/\<close> appends one. A file name is the
  string of its bytes, as the file system stores it (UTF-8): the dot and the digits are
  single bytes that occur in no longer sequence, so \<open>rfind\<close> and the slices of
  \<open>suffix\<close> and \<open>stem\<close> cut a name of bytes where they cut the \<open>str\<close>.
\<close>

type_synonym name = string

type_synonym path = "name list"

definition name_of :: "path \<Rightarrow> name" where
  "name_of p = (if p = [] then [] else last p)"

definition parent :: "path \<Rightarrow> path" where
  "parent p = butlast p"

text \<open>\<open>str.rfind\<close>: the index of the last occurrence, \<open>None\<close> for Python's \<open>-1\<close>.\<close>

fun rfind :: "char \<Rightarrow> string \<Rightarrow> nat option" where
  "rfind c [] = None"
| "rfind c (x # xs) =
     (case rfind c xs of
        Some i \<Rightarrow> Some (Suc i)
      | None \<Rightarrow> if x = c then Some 0 else None)"

text \<open>
  \<open>PurePath.suffix\<close> and \<open>PurePath.stem\<close> of pathlib: with \<open>i = name.rfind('.')\<close>,
  the suffix is \<open>name[i:]\<close> when \<open>0 < i < len(name) - 1\<close> and empty otherwise; the
  stem is the rest of the name.
\<close>

definition suffix_of_name :: "name \<Rightarrow> string" where
  "suffix_of_name n =
     (case rfind (CHR ''.'') n of
        None \<Rightarrow> []
      | Some i \<Rightarrow> if 0 < i \<and> i + 1 < length n then drop i n else [])"

definition stem_of_name :: "name \<Rightarrow> string" where
  "stem_of_name n =
     (case rfind (CHR ''.'') n of
        None \<Rightarrow> n
      | Some i \<Rightarrow> if 0 < i \<and> i + 1 < length n then take i n else n)"

definition suffix :: "path \<Rightarrow> string" where
  "suffix p = suffix_of_name (name_of p)"

definition stem :: "path \<Rightarrow> string" where
  "stem p = stem_of_name (name_of p)"

section \<open>The platform\<close>

text \<open>
  What the program cannot decide by itself is a parameter of the model, one record for
  the platform it runs on:
  \<^item> \<open>case_map s i\<close> is what \<open>str.lower\<close> puts in place of the \<open>i\<close>-th byte of \<open>s\<close>
    (Unicode maps one character to one or more, and looks at its context; the bytes of
    a character after its first are mapped to nothing);
  \<^item> \<open>stat_error p\<close> is the error with which \<open>Path.exists\<close> raises at \<open>p\<close>, when
    \<open>stat\<close> fails there with an error that \<open>Path.exists\<close> does not take for an
    absent path (a name too long, a permission);
  \<^item> \<open>mkdir_error\<close> and \<open>rmdir_error\<close> are the refusals of the two calls;
  \<^item> \<open>move_error src dst\<close> is the error with which \<open>shutil.move\<close> ends when the
    operating system does not let it complete, and \<open>move_debris src dst\<close> the content
    of the file that its copy-and-unlink fallback then leaves at the destination, if
    any; \<open>tree_debris\<close> is what is left of both trees when the source is a directory.
\<close>

datatype error =
    FileNotFoundError | NotADirectoryError | FileExistsError | PermissionError
  | ShutilError | KeyError | DirectoryNotEmpty | OSError

datatype node = File string | Dir | DanglingLink

type_synonym filesystem = "(path \<times> node) list"

record os_env =
  case_map :: "string \<Rightarrow> nat \<Rightarrow> string"
  stat_error :: "path \<Rightarrow> error option"
  mkdir_error :: "path \<Rightarrow> error option"
  rmdir_error :: "path \<Rightarrow> error option"
  move_error :: "path \<Rightarrow> path \<Rightarrow> error option"
  move_debris :: "path \<Rightarrow> path \<Rightarrow> string option"
  tree_debris :: "path \<Rightarrow> path \<Rightarrow> filesystem \<Rightarrow> filesystem"

text \<open>\<open>str.lower\<close>: every byte of the string is replaced by what the platform maps it to.\<close>

definition lower :: "os_env \<Rightarrow> string \<Rightarrow> string" where
  "lower env s = concat (map (case_map env s) [0..<length s])"

text \<open>
  The case mapping of the letters A to Z, which is all of \<open>str.lower\<close> on a string of
  ASCII characters.
\<close>

definition lower_char :: "char \<Rightarrow> char" where
  "lower_char c =
     (let n = (of_char c :: nat) in if 65 \<le> n \<and> n \<le> 90 then char_of (n + 32) else c)"

definition ascii_case_map :: "string \<Rightarrow> nat \<Rightarrow> string" where
  "ascii_case_map s i = [lower_char (s ! i)]"

section \<open>FileCategory\<close>

text \<open>The class attribute \<open>CATEGORIES\<close>, a dict literal, in its insertion order.\<close>

definition CATEGORIES :: "(string \<times> string list) list" where
  "CATEGORIES = [
   (''Documents'', [''.pdf'', ''.docx'', ''.doc'', ''.txt'', ''.rtf'', ''.odt'', ''.xls'',
      ''.xlsx'', ''.ppt'', ''.pptx'', ''.csv'', ''.md'', ''.markdown'', ''.tex'', ''.log'',
      ''.pages'', ''.numbers'', ''.key'', ''.odp'', ''.ods'', ''.epub'', ''.djvu'', ''.mobi'',
      ''.azw'', ''.azw3'', ''.fb2'', ''.oxps'', ''.xps'']),
   (''Images'', [''.jpg'', ''.jpeg'', ''.png'', ''.gif'', ''.bmp'', ''.svg'', ''.tiff'',
      ''.webp'', ''.ico'', ''.psd'', ''.ai'', ''.eps'', ''.indd'', ''.raw'', ''.cr2'',
      ''.nef'', ''.orf'', ''.sr2'', ''.heif'', ''.heic'', ''.xcf'', ''.cdr'']),
   (''Videos'', [''.mp4'', ''.avi'', ''.mkv'', ''.mov'', ''.wmv'', ''.flv'', ''.webm'',
      ''.m4v'', ''.mpg'', ''.mpeg'', ''.3gp'', ''.3g2'', ''.ogv'', ''.vob'', ''.swf'',
      ''.m2ts'', ''.mts'', ''.ts'', ''.divx'', ''.f4v'', ''.rm'', ''.rmvb'', ''.ogm'']),
   (''Audio'', [''.mp3'', ''.wav'', ''.flac'', ''.aac'', ''.ogg'', ''.m4a'', ''.wma'',
      ''.opus'', ''.aiff'', ''.alac'', ''.ape'', ''.mid'', ''.midi'', ''.amr'', ''.ac3'',
      ''.dts'', ''.ra'', ''.voc'', ''.pcm'', ''.dsf'', ''.dff'', ''.mka'', ''.au'']),
   (''Archives'', [''.zip'', ''.rar'', ''.tar'', ''.gz'', ''.7z'', ''.bz2'', ''.xz'', ''.iso'',
      ''.tgz'', ''.tbz2'', ''.txz'', ''.cab'', ''.deb'', ''.rpm'', ''.pkg'', ''.dmg'', ''.z'',
      ''.lzma'', ''.lz'', ''.lz4'', ''.lzo'', ''.zst'', ''.arj'']),
   (''Code'', [''.py'', ''.js'', ''.html'', ''.css'', ''.java'', ''.cpp'', ''.c'', ''.h'',
      ''.php'', ''.rb'', ''.go'', ''.rs'', ''.ts'', ''.swift'', ''.kt'', ''.kts'', ''.scala'',
      ''.sc'', ''.dart'', ''.lua'', ''.pl'', ''.pm'', ''.sh'', ''.bash'', ''.ps1'', ''.bat'',
      ''.cmd'', ''.sql'', ''.r'', ''.jsx'', ''.tsx'', ''.vue'', ''.elm'', ''.clj'', ''.ex'',
      ''.exs'', ''.erl'', ''.hrl'', ''.hs'', ''.lhs'', ''.fs'', ''.fsx'', ''.ml'', ''.mli'',
      ''.groovy'', ''.cs'', ''.vb'', ''.xaml'', ''.xml'', ''.json'', ''.yaml'', ''.yml'',
      ''.toml'', ''.ini'', ''.config'', ''.cmake'', ''.make'', ''.gradle'', ''.m'', ''.mm'',
      ''.f'', ''.f90'', ''.f95'', ''.f03'', ''.f08'', ''.asm'', ''.s'', ''.gitignore'',
      ''.dockerignore'', ''.editorconfig'']),
   (''Executables'', [''.exe'', ''.msi'', ''.app'', ''.dmg'', ''.deb'', ''.rpm'', ''.apk'',
      ''.jar'', ''.war'', ''.dll'', ''.so'', ''.dylib'', ''.bin'', ''.run'', ''.bat'',
      ''.cmd'', ''.com'', ''.gadget'', ''.vb'', ''.vbs'', ''.ps1'', ''.msc'']),
   (''Fonts'', [''.ttf'', ''.otf'', ''.woff'', ''.woff2'', ''.eot'', ''.fnt'', ''.fon'',
      ''.bdf'', ''.pfb'', ''.pfm'', ''.afm'', ''.pfa'']),
   (''Spreadsheets'', [''.xlsx'', ''.xls'', ''.xlsm'', ''.xlsb'', ''.numbers'', ''.ods'',
      ''.csv'', ''.tsv'', ''.dif'', ''.sylk'', ''.dbf'']),
   (''Presentations'', [''.pptx'', ''.ppt'', ''.pps'', ''.ppsx'', ''.odp'', ''.key'',
      ''.gslides'']),
   (''Databases'', [''.db'', ''.sqlite'', ''.sqlite3'', ''.mdb'', ''.accdb'', ''.sql'',
      ''.bak'', ''.dbf'', ''.frm'', ''.ibd'', ''.myd'', ''.myi'']),
   (''3D_Models'', [''.obj'', ''.fbx'', ''.3ds'', ''.stl'', ''.dae'', ''.blend'', ''.max'',
      ''.ma'', ''.mb'', ''.c4d'', ''.lwo'', ''.lws'']),
   (''CAD'', [''.dwg'', ''.dxf'', ''.step'', ''.stp'', ''.iges'', ''.igs'', ''.x_t'', ''.x_b'',
      ''.sldprt'', ''.sldasm'', ''.ipt'', ''.iam'']),
   (''Vector'', [''.svg'', ''.ai'', ''.eps'', ''.pdf'', ''.cdr'', ''.afdesign'', ''.sketch'']),
   (''Ebooks'', [''.epub'', ''.mobi'', ''.azw'', ''.azw3'', ''.fb2'', ''.ibooks'', ''.cbr'',
      ''.cbz'', ''.pdf'']),
   (''Others'', [])]"

text \<open>
  \<open>get_category\<close>: the loop over \<open>CATEGORIES.items()\<close> returns at the first category
  whose list holds the extension, and \<open>"Others"\<close> after the loop.
\<close>

fun first_category :: "(string \<times> string list) list \<Rightarrow> string \<Rightarrow> string" where
  "first_category [] extension = ''Others''"
| "first_category ((category, extensions) # rest) extension =
     (if extension \<in> set extensions then category else first_category rest extension)"

definition get_category :: "os_env \<Rightarrow> path \<Rightarrow> string" where
  "get_category env file_path = first_category CATEGORIES (lower env (suffix file_path))"

text \<open>The categories whose list holds an extension, in table order.\<close>

definition categories_of :: "string \<Rightarrow> string list" where
  "categories_of e = map fst (filter (\<lambda>(category, extensions). e \<in> set extensions) CATEGORIES)"

section \<open>Decimal numerals\<close>

text \<open>\<open>str(n)\<close> for a non-negative integer, as the f-string \<open>f"{stem}_{counter}"\<close> renders it.\<close>

definition digit_char :: "nat \<Rightarrow> char" where
  "digit_char d = char_of (48 + d)"

function str_nat :: "nat \<Rightarrow> string" where
  "str_nat n = (if n < 10 then [digit_char n] else str_nat (n div 10) @ [digit_char (n mod 10)])"
  by pat_completeness auto

termination
  by (relation "measure id") auto

declare str_nat.simps [simp del]

section \<open>The file system\<close>

text \<open>
  The file system is the finite list of its entries, each a path with what is stored
  there; the order of the list is the order in which a directory listing yields them
  (\<open>os.scandir\<close> gives no order of its own). \<open>DanglingLink\<close> is a symbolic link whose
  target is missing: an entry that \<open>stat\<close> does not find. A link whose target exists
  is seen through its target by the calls used here, and stands in the list as a file
  or a directory.
\<close>

definition lookup :: "filesystem \<Rightarrow> path \<Rightarrow> node option" where
  "lookup fs p = map_of fs p"

text \<open>\<open>stat\<close> finds something at the path: a file or a directory.\<close>

definition path_exists :: "filesystem \<Rightarrow> path \<Rightarrow> bool" where
  "path_exists fs p =
     (case lookup fs p of Some (File c) \<Rightarrow> True | Some Dir \<Rightarrow> True | _ \<Rightarrow> False)"

text \<open>
  \<open>Path.exists\<close>: false when \<open>stat\<close> finds nothing, and an exception when \<open>stat\<close>
  fails otherwise.
\<close>

definition py_exists :: "os_env \<Rightarrow> filesystem \<Rightarrow> path \<Rightarrow> error + bool" where
  "py_exists env fs p =
     (case stat_error env p of Some e \<Rightarrow> Inl e | None \<Rightarrow> Inr (path_exists fs p))"

definition is_file :: "filesystem \<Rightarrow> path \<Rightarrow> bool" where
  "is_file fs p = (case lookup fs p of Some (File c) \<Rightarrow> True | _ \<Rightarrow> False)"

definition is_dir :: "filesystem \<Rightarrow> path \<Rightarrow> bool" where
  "is_dir fs p = (lookup fs p = Some Dir)"

definition children :: "filesystem \<Rightarrow> path \<Rightarrow> path list" where
  "children fs d = filter (\<lambda>p. p \<noteq> [] \<and> parent p = d) (map fst fs)"

text \<open>\<open>Path.iterdir\<close> raises when the path is missing or is not a directory.\<close>

definition iterdir :: "filesystem \<Rightarrow> path \<Rightarrow> error + path list" where
  "iterdir fs d =
     (case lookup fs d of
        None \<Rightarrow> Inl FileNotFoundError
      | Some Dir \<Rightarrow> Inr (children fs d)
      | Some n \<Rightarrow> Inl NotADirectoryError)"

text \<open>
  \<open>Path.mkdir(exist_ok=True)\<close>: an existing directory is accepted, any other entry at
  the path is not.
\<close>

definition mkdir :: "os_env \<Rightarrow> filesystem \<Rightarrow> path \<Rightarrow> error + filesystem" where
  "mkdir env fs p =
     (case lookup fs p of
        Some Dir \<Rightarrow> Inr fs
      | Some n \<Rightarrow> Inl FileExistsError
      | None \<Rightarrow>
          (case mkdir_error env p of
             Some e \<Rightarrow> Inl e
           | None \<Rightarrow>
               (case lookup fs (parent p) of
                  None \<Rightarrow> Inl FileNotFoundError
                | Some Dir \<Rightarrow> Inr (fs @ [(p, Dir)])
                | Some n \<Rightarrow> Inl NotADirectoryError)))"

text \<open>\<open>Path.rmdir\<close> removes an empty directory only.\<close>

definition rmdir :: "os_env \<Rightarrow> filesystem \<Rightarrow> path \<Rightarrow> error + filesystem" where
  "rmdir env fs p =
     (case rmdir_error env p of
        Some e \<Rightarrow> Inl e
      | None \<Rightarrow>
          (case lookup fs p of
             None \<Rightarrow> Inl FileNotFoundError
           | Some Dir \<Rightarrow>
               if children fs p = [] then Inr (AList.delete p fs) else Inl DirectoryNotEmpty
           | Some n \<Rightarrow> Inl NotADirectoryError))"

definition is_under :: "path \<Rightarrow> path \<Rightarrow> bool" where
  "is_under d p = (take (length d) p = d)"

definition move_tree :: "path \<Rightarrow> path \<Rightarrow> filesystem \<Rightarrow> filesystem" where
  "move_tree src dst fs =
     map (\<lambda>(p, n). if is_under src p then (dst @ drop (length src) p, n) else (p, n)) fs"

text \<open>The entry at a path is replaced, or added.\<close>

definition put :: "path \<Rightarrow> node \<Rightarrow> filesystem \<Rightarrow> filesystem" where
  "put p n fs = AList.delete p fs @ [(p, n)]"

text \<open>
  \<open>shutil.move(src, dst)\<close>, which returns the file system it leaves and the error it
  raises, if any. When \<open>dst\<close> is an existing directory the source goes inside it, under
  its own name, which must be free there; otherwise the source is renamed to \<open>dst\<close>,
  replacing a file or a link already there. The move raises, and changes nothing, when
  the source is missing or when the parent of the destination is missing or is not a
  directory. It also raises when the platform does not let it complete: the source is
  then still in place, and the fallback of \<open>shutil.move\<close> (copy, then unlink) may have
  left a copy at the destination.
\<close>

definition shutil_move ::
  "os_env \<Rightarrow> filesystem \<Rightarrow> path \<Rightarrow> path \<Rightarrow> error option \<times> filesystem" where
  "shutil_move env fs src dst =
     (if is_dir fs dst \<and> src = dst then (None, fs)
      else
        let real_dst = (if is_dir fs dst then dst @ [name_of src] else dst) in
        if is_dir fs dst \<and> path_exists fs real_dst then (Some ShutilError, fs)
        else
          (case lookup fs src of
             None \<Rightarrow> (Some FileNotFoundError, fs)
           | Some (File c) \<Rightarrow>
               (case lookup fs (parent real_dst) of
                  None \<Rightarrow> (Some FileNotFoundError, fs)
                | Some Dir \<Rightarrow>
                    (case move_error env src real_dst of
                       None \<Rightarrow> (None, put real_dst (File c) (AList.delete src fs))
                     | Some e \<Rightarrow>
                         (Some e,
                          case move_debris env src real_dst of
                            None \<Rightarrow> fs
                          | Some c' \<Rightarrow> if real_dst = src then fs else put real_dst (File c') fs))
                | Some n \<Rightarrow> (Some NotADirectoryError, fs))
           | Some DanglingLink \<Rightarrow>
               (case lookup fs (parent real_dst) of
                  None \<Rightarrow> (Some FileNotFoundError, fs)
                | Some Dir \<Rightarrow>
                    (case move_error env src real_dst of
                       None \<Rightarrow> (None, put real_dst DanglingLink (AList.delete src fs))
                     | Some e \<Rightarrow>
                         (Some e,
                          case move_debris env src real_dst of
                            None \<Rightarrow> fs
                          | Some c' \<Rightarrow> if real_dst = src then fs else put real_dst DanglingLink fs))
                | Some n \<Rightarrow> (Some NotADirectoryError, fs))
           | Some Dir \<Rightarrow>
               if is_under src real_dst then (Some ShutilError, fs)
               else if lookup fs real_dst \<noteq> None then (Some FileExistsError, fs)
               else
                 (case lookup fs (parent real_dst) of
                    None \<Rightarrow> (Some FileNotFoundError, fs)
                  | Some Dir \<Rightarrow>
                      (case move_error env src real_dst of
                         None \<Rightarrow> (None, move_tree src real_dst fs)
                       | Some e \<Rightarrow>
                           (Some e,
                            filter (\<lambda>(p, n). \<not> is_under src p \<and> \<not> is_under real_dst p) fs
                              @ filter (\<lambda>(p, n). is_under src p \<or> is_under real_dst p)
                                  (tree_debris env src real_dst fs)))
                  | Some n \<Rightarrow> (Some NotADirectoryError, fs))))"

section \<open>Filename conflicts\<close>

text \<open>
  The \<open>while new_path.exists()\<close> loop of \<open>action_sort\<close>, entered with
  \<open>counter = 1\<close> and \<open>new_path = category_dir / file_path.name\<close>. It stands outside
  the \<open>try\<close> block, so an exception of \<open>exists\<close> leaves the loop as it is.
\<close>

definition candidate :: "path \<Rightarrow> string \<Rightarrow> string \<Rightarrow> nat \<Rightarrow> path" where
  "candidate category_dir original_stem sfx counter =
     category_dir @ [original_stem @ ''_'' @ str_nat counter @ sfx]"

function resolve ::
  "os_env \<Rightarrow> filesystem \<Rightarrow> path \<Rightarrow> string \<Rightarrow> string \<Rightarrow> nat \<Rightarrow> path \<Rightarrow> error + path" where
  "resolve env fs category_dir original_stem sfx counter new_path =
     (case stat_error env new_path of
        Some e \<Rightarrow> Inl e
      | None \<Rightarrow>
          if path_exists fs new_path
          then resolve env fs category_dir original_stem sfx (counter + 1)
                 (candidate category_dir original_stem sfx counter)
          else Inr new_path)"
  by pat_completeness auto

text \<open>The destination the loop settles on for a file that goes to \<open>category_dir\<close>.\<close>

definition resolve_destination :: "os_env \<Rightarrow> filesystem \<Rightarrow> path \<Rightarrow> path \<Rightarrow> error + path" where
  "resolve_destination env fs category_dir file_path =
     resolve env fs category_dir (stem file_path) (suffix file_path) 1
       (category_dir @ [name_of file_path])"

section \<open>The application state\<close>

text \<open>
  \<open>status\<close> holds the messages passed to \<open>update_status\<close>, oldest first; each
  constructor stands for one of the source's message texts. The two dicts are
  association lists in insertion order: \<open>undo_data\<close> maps the new path of a moved file
  to its original path. The widgets (progress bar, buttons, directory tree) are not
  modelled.
\<close>

datatype message =
    NoDirectorySelected
  | SortingFilesIn path
  | NoFilesFound
  | ErrorMoving name error
  | SortingComplete nat
  | NothingToUndo
  | UndoingLastSort
  | ErrorUndoingMove name error
  | ErrorRemovingDirectory name error
  | UndoComplete nat

record app =
  disk :: filesystem
  selected_directory :: "path option"
  last_sort_results :: "(string \<times> path list) list"
  undo_data :: "(path \<times> path) list"
  status :: "message list"

definition update_status :: "app \<Rightarrow> message \<Rightarrow> app" where
  "update_status st m = st\<lparr>status := status st @ [m]\<rparr>"

section \<open>action\_sort\<close>

text \<open>First pass: \<open>files_by_category\<close>, built without touching the file system.\<close>

fun categorize ::
  "os_env \<Rightarrow> path list \<Rightarrow> (string \<times> path list) list \<Rightarrow> (string \<times> path list) list" where
  "categorize env [] files_by_category = files_by_category"
| "categorize env (file_path # files) files_by_category =
     (let category = get_category env file_path in
      categorize env files
        (case map_of files_by_category category of
           None \<Rightarrow> AList.update category [file_path] files_by_category
         | Some category_files \<Rightarrow>
             AList.update category (category_files @ [file_path]) files_by_category))"

text \<open>
  An exception that leaves \<open>action_sort\<close> is the value \<open>Inl\<close>, with the state of the
  application at the moment it was raised.

  The body of the inner loop, for one file of a category. The conflict loop comes
  first, outside the \<open>try\<close> block: its exception ends the whole call. The \<open>try\<close>
  block holds the move and the two bookkeeping statements; whatever it raises is
  reported and the loop goes on.
\<close>

definition sort_file ::
  "os_env \<Rightarrow> path \<Rightarrow> string \<Rightarrow> app \<Rightarrow> path \<Rightarrow> (error \<times> app) + app" where
  "sort_file env category_dir category st file_path =
     (if parent file_path = category_dir then Inr st
      else
        case resolve_destination env (disk st) category_dir file_path of
          Inl e \<Rightarrow> Inl (e, st)
        | Inr new_path \<Rightarrow>
            Inr (case shutil_move env (disk st) file_path new_path of
                   (Some e, fs') \<Rightarrow>
                     update_status (st\<lparr>disk := fs'\<rparr>) (ErrorMoving (name_of file_path) e)
                 | (None, fs') \<Rightarrow>
                     (case map_of (last_sort_results st) category of
                        None \<Rightarrow>
                          update_status (st\<lparr>disk := fs'\<rparr>)
                            (ErrorMoving (name_of file_path) KeyError)
                      | Some moved \<Rightarrow>
                          st\<lparr>disk := fs',
                             last_sort_results :=
                               AList.update category (moved @ [new_path]) (last_sort_results st),
                             undo_data := AList.update new_path file_path (undo_data st)\<rparr>)))"

text \<open>The inner loop, over the files of one category.\<close>

fun sort_files ::
  "os_env \<Rightarrow> path \<Rightarrow> string \<Rightarrow> app \<Rightarrow> path list \<Rightarrow> (error \<times> app) + app" where
  "sort_files env category_dir category st [] = Inr st"
| "sort_files env category_dir category st (file_path # category_files) =
     (case sort_file env category_dir category st file_path of
        Inl e \<Rightarrow> Inl e
      | Inr st' \<Rightarrow> sort_files env category_dir category st' category_files)"

text \<open>
  The second pass over \<open>files_by_category.items()\<close>. The directory of a category is
  created when \<open>exists\<close> does not find it; both calls stand outside every \<open>try\<close>, so an
  error of either ends the whole call.
\<close>

fun sort_categories ::
  "os_env \<Rightarrow> path \<Rightarrow> (string \<times> path list) list \<Rightarrow> app \<Rightarrow> (error \<times> app) + app" where
  "sort_categories env directory [] st = Inr st"
| "sort_categories env directory ((category, category_files) # rest) st =
     (if category_files = [] then sort_categories env directory rest st
      else
        let category_dir = directory @ [category] in
        case py_exists env (disk st) category_dir of
          Inl e \<Rightarrow> Inl (e, st)
        | Inr found \<Rightarrow>
            (case (if found then Inr (disk st) else mkdir env (disk st) category_dir) of
               Inl e \<Rightarrow> Inl (e, st)
             | Inr fs1 \<Rightarrow>
                 (case sort_files env category_dir category (st\<lparr>disk := fs1\<rparr>) category_files of
                    Inl e \<Rightarrow> Inl e
                  | Inr st' \<Rightarrow> sort_categories env directory rest st')))"

definition total_sorted :: "(string \<times> path list) list \<Rightarrow> nat" where
  "total_sorted results = sum_list (map (\<lambda>(category, files). length files) results)"

definition action_sort :: "os_env \<Rightarrow> app \<Rightarrow> (error \<times> app) + app" where
  "action_sort env st =
     (case selected_directory st of
        None \<Rightarrow> Inr (update_status st NoDirectorySelected)
      | Some directory \<Rightarrow>
          let st1 = update_status st (SortingFilesIn directory) in
          case iterdir (disk st1) directory of
            Inl e \<Rightarrow> Inl (e, st1)
          | Inr entries \<Rightarrow>
              let files = filter (is_file (disk st1)) entries in
              if files = [] then Inr (update_status st1 NoFilesFound)
              else
                let st2 = st1\<lparr>last_sort_results := map (\<lambda>category. (category, [])) (map fst CATEGORIES),
                               undo_data := []\<rparr>
                in
                case sort_categories env directory (categorize env files []) st2 of
                  Inl e \<Rightarrow> Inl e
                | Inr st3 \<Rightarrow>
                    Inr (update_status st3 (SortingComplete (total_sorted (last_sort_results st3)))))"

section \<open>undo\_sort\<close>

text \<open>
  The body of the loop over \<open>undo_data.items()\<close>, all of it inside a \<open>try\<close> block. The
  set \<open>category_dirs\<close> is kept as a duplicate-free list; Python gives a set no iteration
  order, and the list's order is the one the cleanup loop follows here.
\<close>

definition undo_file ::
  "os_env \<Rightarrow> app \<times> path list \<Rightarrow> path \<times> path \<Rightarrow> app \<times> path list" where
  "undo_file env acc entry =
     (case (acc, entry) of ((st, category_dirs), (new_path, original_path)) \<Rightarrow>
        case py_exists env (disk st) new_path of
          Inl e \<Rightarrow> (update_status st (ErrorUndoingMove (name_of new_path) e), category_dirs)
        | Inr found \<Rightarrow>
            if found then
              let category_dirs' = List.insert (parent new_path) category_dirs in
              case shutil_move env (disk st) new_path original_path of
                (Some e, fs') \<Rightarrow>
                  (update_status (st\<lparr>disk := fs'\<rparr>) (ErrorUndoingMove (name_of new_path) e),
                   category_dirs')
              | (None, fs') \<Rightarrow> (st\<lparr>disk := fs'\<rparr>, category_dirs')
            else (st, category_dirs))"

text \<open>
  The body of the loop that removes the category directories left empty, all of it
  inside a \<open>try\<close> block.
\<close>

definition remove_if_empty :: "os_env \<Rightarrow> app \<times> nat \<Rightarrow> path \<Rightarrow> app \<times> nat" where
  "remove_if_empty env acc directory =
     (case acc of (st, removed_dirs) \<Rightarrow>
        case py_exists env (disk st) directory of
          Inl e \<Rightarrow> (update_status st (ErrorRemovingDirectory (name_of directory) e), removed_dirs)
        | Inr found \<Rightarrow>
            if found then
              case iterdir (disk st) directory of
                Inl e \<Rightarrow>
                  (update_status st (ErrorRemovingDirectory (name_of directory) e), removed_dirs)
              | Inr entries \<Rightarrow>
                  if entries = [] then
                    case rmdir env (disk st) directory of
                      Inl e \<Rightarrow>
                        (update_status st (ErrorRemovingDirectory (name_of directory) e),
                         removed_dirs)
                    | Inr fs' \<Rightarrow> (st\<lparr>disk := fs'\<rparr>, removed_dirs + 1)
                  else (st, removed_dirs)
            else (st, removed_dirs))"

definition reverse_moves :: "os_env \<Rightarrow> app \<Rightarrow> app \<times> path list" where
  "reverse_moves env st = foldl (undo_file env) (st, []) (undo_data st)"

definition remove_empty_dirs :: "os_env \<Rightarrow> app \<Rightarrow> path list \<Rightarrow> app \<times> nat" where
  "remove_empty_dirs env st category_dirs = foldl (remove_if_empty env) (st, 0) category_dirs"

definition undo_sort :: "os_env \<Rightarrow> app \<Rightarrow> app" where
  "undo_sort env st =
     (if undo_data st = [] then update_status st NothingToUndo
      else
        case reverse_moves env (update_status st UndoingLastSort) of (st2, category_dirs) \<Rightarrow>
        case remove_empty_dirs env st2 category_dirs of (st3, removed_dirs) \<Rightarrow>
          (update_status st3 (UndoComplete removed_dirs))\<lparr>undo_data := [], last_sort_results := []\<rparr>)"

section \<open>Platforms of the examples\<close>

text \<open>A platform that refuses nothing, for file names of ASCII characters.\<close>

definition never :: os_env where
  "never =
     \<lparr>case_map = ascii_case_map,
      stat_error = (\<lambda>p. None),
      mkdir_error = (\<lambda>p. None),
      rmdir_error = (\<lambda>p. None),
      move_error = (\<lambda>src dst. None),
      move_debris = (\<lambda>src dst. None),
      tree_debris = (\<lambda>src dst fs. fs)\<rparr>"

text \<open>The same platform, but the file at one path cannot be moved.\<close>

definition locked :: "path \<Rightarrow> os_env" where
  "locked p =
     never\<lparr>move_error := (\<lambda>src dst. if src = p then Some PermissionError else None)\<rparr>"

text \<open>The same again, but the refused move leaves a copy at the destination.\<close>

definition locked_copied :: "path \<Rightarrow> os_env" where
  "locked_copied p =
     (locked p)\<lparr>move_debris := (\<lambda>src dst. if src = p then Some ''partial'' else None)\<rparr>"

text \<open>
  A platform whose \<open>str.lower\<close> knows one character outside ASCII: the Kelvin sign,
  U+212A, three bytes in UTF-8, whose lower case is the letter k.
\<close>

definition kelvin_sign :: string where
  "kelvin_sign = [char_of (226 :: nat), char_of (132 :: nat), char_of (170 :: nat)]"

definition kelvin_case_map :: "string \<Rightarrow> nat \<Rightarrow> string" where
  "kelvin_case_map s i =
     (if take 3 (drop i s) = kelvin_sign then ''k''
      else if 1 \<le> i \<and> take 3 (drop (i - 1) s) = kelvin_sign then []
      else if 2 \<le> i \<and> take 3 (drop (i - 2) s) = kelvin_sign then []
      else ascii_case_map s i)"

definition unicode :: os_env where
  "unicode = never\<lparr>case_map := kelvin_case_map\<rparr>"

section \<open>Counters with a taken candidate name\<close>

text \<open>The counters from \<open>counter\<close> on whose candidate name is taken: a finite set.\<close>

definition taken :: "filesystem \<Rightarrow> path \<Rightarrow> string \<Rightarrow> string \<Rightarrow> nat \<Rightarrow> nat set" where
  "taken fs category_dir original_stem sfx counter =
     {k. counter \<le> k \<and> path_exists fs (candidate category_dir original_stem sfx k)}"

section \<open>Shape of the extensions in the table\<close>

definition wf_extension :: "string \<Rightarrow> bool" where
  "wf_extension e =
     (case e of [] \<Rightarrow> False | c # r \<Rightarrow> c = CHR ''.'' \<and> r \<noteq> [] \<and> CHR ''.'' \<notin> set r)"

section \<open>Example directories\<close>

definition fresh_app :: "filesystem \<Rightarrow> path \<Rightarrow> app" where
  "fresh_app fs directory =
     \<lparr>disk = fs, selected_directory = Some directory, last_sort_results = [], undo_data = [],
      status = []\<rparr>"

definition clash_dir :: filesystem where
  "clash_dir = [([], Dir), ([''d''], Dir), ([''d'', ''Documents''], File ''notes''),
                ([''d'', ''a.pdf''], File ''paper'')]"


definition report_dir :: filesystem where
  "report_dir = [([], Dir), ([''d''], Dir), ([''d'', ''Documents''], Dir),
                 ([''d'', ''Documents'', ''report.pdf''], File ''first''),
                 ([''d'', ''report.pdf''], File ''second'')]"

definition report_dir2 :: filesystem where
  "report_dir2 = [([], Dir), ([''d''], Dir), ([''d'', ''Documents''], Dir),
                  ([''d'', ''Documents'', ''report.pdf''], File ''first''),
                  ([''d'', ''Documents'', ''report_1.pdf''], File ''second''),
                  ([''d'', ''report.pdf''], File ''third'')]"

text \<open>The destination of \<open>report.pdf\<close> is taken by a symbolic link whose target is gone.\<close>

definition link_dir :: filesystem where
  "link_dir = [([], Dir), ([''d''], Dir), ([''d'', ''Documents''], Dir),
               ([''d'', ''Documents'', ''report.pdf''], DanglingLink),
               ([''d'', ''report.pdf''], File ''second'')]"

text \<open>
  A platform on which \<open>stat\<close> fails for a name of more than 255 bytes (\<open>ENAMETOOLONG\<close>,
  which \<open>Path.exists\<close> does not take for an absent path), and a directory in which a
  file with a name of 255 bytes meets one of the same name in its category directory.
\<close>

definition name_max :: os_env where
  "name_max =
     never\<lparr>stat_error := (\<lambda>p. if list_ex (\<lambda>n. 255 < length n) p then Some OSError else None)\<rparr>"

text \<open>A platform on which \<open>exists\<close> is silent about such a name and the move raises.\<close>

definition name_max_move :: os_env where
  "name_max_move =
     never\<lparr>move_error :=
             (\<lambda>src dst. if list_ex (\<lambda>n. 255 < length n) dst then Some OSError else None)\<rparr>"

definition long_name :: name where
  "long_name = replicate 251 (CHR ''a'') @ ''.pdf''"

definition long_dir :: filesystem where
  "long_dir = [([], Dir), ([''d''], Dir), ([''d'', ''Documents''], Dir),
               ([''d'', ''Documents'', long_name], File ''first''),
               ([''d'', long_name], File ''second''),
               ([''d'', ''b.jpg''], File ''photo'')]"

section \<open>Grouping by category\<close>

definition grouped :: "os_env \<Rightarrow> (string \<times> path list) list \<Rightarrow> bool" where
  "grouped env acc = (\<forall>(category, fl) \<in> set acc. \<forall>f \<in> set fl. get_category env f = category)"

section \<open>The invariant of the second pass\<close>

text \<open>The list \<open>files\<close> of \<open>action_sort\<close>: the direct children that are files.\<close>

definition files_of :: "filesystem \<Rightarrow> path \<Rightarrow> path list" where
  "files_of fs directory = filter (is_file fs) (children fs directory)"

text \<open>
  The invariant of the second pass, for a sort of the directory \<open>D\<close> that started on
  the file system \<open>fs0\<close> with \<open>n0\<close> messages already in \<open>status\<close>, and still has the
  files \<open>rem\<close> to process.
\<close>

definition inv_rem :: "filesystem \<Rightarrow> path \<Rightarrow> path list \<Rightarrow> app \<Rightarrow> bool" where
  "inv_rem fs0 D rem s \<longleftrightarrow>
     distinct rem
   \<and> (\<forall>f \<in> set rem. f \<in> set (files_of fs0 D) \<and> lookup (disk s) f = lookup fs0 f
          \<and> f \<notin> snd ` set (undo_data s))"

definition inv_results :: "app \<Rightarrow> bool" where
  "inv_results s \<longleftrightarrow>
     map fst (last_sort_results s) = map fst CATEGORIES
   \<and> mset (concat (map snd (last_sort_results s))) = mset (map fst (undo_data s))"

definition inv_log :: "filesystem \<Rightarrow> path \<Rightarrow> app \<Rightarrow> bool" where
  "inv_log fs0 D s \<longleftrightarrow>
     distinct (map fst (undo_data s))
   \<and> distinct (map snd (undo_data s))
   \<and> (\<forall>(np, f) \<in> set (undo_data s). f \<in> set (files_of fs0 D) \<and> lookup (disk s) np = lookup fs0 f
          \<and> \<not> is_file (disk s) f \<and> length np = length D + 2)"

definition inv_done :: "filesystem \<Rightarrow> nat \<Rightarrow> path \<Rightarrow> path list \<Rightarrow> app \<Rightarrow> bool" where
  "inv_done fs0 n0 D rem s \<longleftrightarrow>
     n0 \<le> length (status s)
   \<and> (\<forall>f \<in> set (files_of fs0 D). f \<in> set rem \<or> f \<in> snd ` set (undo_data s)
          \<or> (lookup (disk s) f = lookup fs0 f
              \<and> (\<exists>e. ErrorMoving (name_of f) e \<in> set (drop n0 (status s)))))"

definition inv_dirs :: "os_env \<Rightarrow> filesystem \<Rightarrow> path \<Rightarrow> app \<Rightarrow> bool" where
  "inv_dirs env fs0 D s \<longleftrightarrow>
     lookup (disk s) D = Some Dir
   \<and> (\<forall>p. is_dir (disk s) p \<longrightarrow>
          is_dir fs0 p \<or> (\<exists>f \<in> set (files_of fs0 D). p = D @ [get_category env f]))"

definition inv_top :: "filesystem \<Rightarrow> path \<Rightarrow> app \<Rightarrow> bool" where
  "inv_top fs0 D s \<longleftrightarrow>
     (\<forall>p. p \<noteq> [] \<and> parent p = D \<and> is_file (disk s) p \<longrightarrow>
          p \<in> set (files_of fs0 D) \<and> p \<notin> snd ` set (undo_data s) \<and> lookup (disk s) p = lookup fs0 p)"

definition sort_inv :: "os_env \<Rightarrow> filesystem \<Rightarrow> nat \<Rightarrow> path \<Rightarrow> path list \<Rightarrow> app \<Rightarrow> bool" where
  "sort_inv env fs0 n0 D rem s \<longleftrightarrow>
     inv_rem fs0 D rem s \<and> inv_results s \<and> inv_log fs0 D s \<and> inv_done fs0 n0 D rem s
   \<and> inv_dirs env fs0 D s \<and> inv_top fs0 D s"

text \<open>No symbolic link with a missing target has appeared since the sort started.\<close>

definition inv_links :: "filesystem \<Rightarrow> app \<Rightarrow> bool" where
  "inv_links fs0 s \<longleftrightarrow>
     (\<forall>p. lookup (disk s) p = Some DanglingLink \<longrightarrow> lookup fs0 p = Some DanglingLink)"

section \<open>Example runs of a sort\<close>

definition mixed_dir :: filesystem where
  "mixed_dir = [([], Dir), ([''d''], Dir), ([''d'', ''a.pdf''], File ''paper''),
                ([''d'', ''b.jpg''], File ''photo'')]"

definition empty_dir :: filesystem where
  "empty_dir = [([], Dir), ([''d''], Dir), ([''d'', ''sub''], Dir)]"

definition no_results :: "(string \<times> path list) list" where
  "no_results = map (\<lambda>category. (category, [])) (map fst CATEGORIES)"

text \<open>The state after sorting \<open>mixed_dir\<close> when no move is refused.\<close>

definition mixed_sorted :: app where
  "mixed_sorted =
     \<lparr>disk = [([], Dir), ([''d''], Dir), ([''d'', ''Documents''], Dir),
              ([''d'', ''Documents'', ''a.pdf''], File ''paper''),
              ([''d'', ''Images''], Dir),
              ([''d'', ''Images'', ''b.jpg''], File ''photo'')],
      selected_directory = Some [''d''],
      last_sort_results =
        AList.update ''Images'' [[''d'', ''Images'', ''b.jpg'']]
          (AList.update ''Documents'' [[''d'', ''Documents'', ''a.pdf'']] no_results),
      undo_data = [([''d'', ''Documents'', ''a.pdf''], [''d'', ''a.pdf'']),
                   ([''d'', ''Images'', ''b.jpg''], [''d'', ''b.jpg''])],
      status = [SortingFilesIn [''d''], SortingComplete 2]\<rparr>"

text \<open>The state after sorting \<open>mixed_dir\<close> when the move of \<open>a.pdf\<close> is refused.\<close>

definition mixed_locked :: app where
  "mixed_locked =
     \<lparr>disk = [([], Dir), ([''d''], Dir), ([''d'', ''a.pdf''], File ''paper''),
              ([''d'', ''Documents''], Dir), ([''d'', ''Images''], Dir),
              ([''d'', ''Images'', ''b.jpg''], File ''photo'')],
      selected_directory = Some [''d''],
      last_sort_results = AList.update ''Images'' [[''d'', ''Images'', ''b.jpg'']] no_results,
      undo_data = [([''d'', ''Images'', ''b.jpg''], [''d'', ''b.jpg''])],
      status = [SortingFilesIn [''d''], ErrorMoving ''a.pdf'' PermissionError, SortingComplete 1]\<rparr>"

section \<open>Intermediate states of an undo\<close>

text \<open>The states in which the two loops of \<open>undo_sort\<close> reach their \<open>i\<close>-th element.\<close>

definition reversal_state :: "os_env \<Rightarrow> app \<Rightarrow> nat \<Rightarrow> app" where
  "reversal_state env st i = fst (foldl (undo_file env) (st, []) (take i (undo_data st)))"

definition cleanup_state :: "os_env \<Rightarrow> app \<Rightarrow> path list \<Rightarrow> nat \<Rightarrow> app" where
  "cleanup_state env st category_dirs i =
     fst (foldl (remove_if_empty env) (st, 0) (take i category_dirs))"

text \<open>The undo of the sorted \<open>mixed_dir\<close>: after the reversals, and after the cleanup.\<close>

definition mixed_reversed :: app where
  "mixed_reversed =
     mixed_sorted
       \<lparr>disk := [([], Dir), ([''d''], Dir), ([''d'', ''Documents''], Dir),
                 ([''d'', ''Images''], Dir), ([''d'', ''a.pdf''], File ''paper''),
                 ([''d'', ''b.jpg''], File ''photo'')],
        status := [SortingFilesIn [''d''], SortingComplete 2, UndoingLastSort]\<rparr>"

definition mixed_cleaned :: app where
  "mixed_cleaned =
     mixed_reversed
       \<lparr>disk := [([], Dir), ([''d''], Dir), ([''d'', ''a.pdf''], File ''paper''),
                 ([''d'', ''b.jpg''], File ''photo'')]\<rparr>"

section \<open>Termination of the conflict loop\<close>

lemma str_nat_nonempty: "str_nat n \<noteq> []"
  by (subst str_nat.simps) simp

lemma digit_char_inj: "a < 10 \<Longrightarrow> b < 10 \<Longrightarrow> digit_char a = digit_char b \<Longrightarrow> a = b"
proof -
  assume a: "a < 10" and b: "b < 10" and e: "digit_char a = digit_char b"
  from e have "(of_char (digit_char a) :: nat) = of_char (digit_char b)" by simp
  with a b show ?thesis by (simp add: digit_char_def)
qed

lemma str_nat_inj: "str_nat n = str_nat m \<Longrightarrow> n = m"
proof (induction n arbitrary: m rule: str_nat.induct)
  case (1 n)
  show ?case
  proof (cases "n < 10")
    case True
    hence n: "str_nat n = [digit_char n]" by (subst str_nat.simps) simp
    have m10: "m < 10"
    proof (rule ccontr)
      assume "\<not> m < 10"
      hence "str_nat m = str_nat (m div 10) @ [digit_char (m mod 10)]"
        by (subst str_nat.simps) simp
      with n "1.prems" str_nat_nonempty [of "m div 10"] show False
        by (cases "str_nat (m div 10)") auto
    qed
    hence "str_nat m = [digit_char m]" by (subst str_nat.simps) simp
    with n "1.prems" have "digit_char n = digit_char m" by simp
    with True m10 show ?thesis by (rule digit_char_inj)
  next
    case False
    hence n: "str_nat n = str_nat (n div 10) @ [digit_char (n mod 10)]"
      by (subst str_nat.simps) simp
    have m10: "\<not> m < 10"
    proof
      assume "m < 10"
      hence "str_nat m = [digit_char m]" by (subst str_nat.simps) simp
      with n "1.prems" str_nat_nonempty [of "n div 10"] show False
        by (cases "str_nat (n div 10)") auto
    qed
    hence m: "str_nat m = str_nat (m div 10) @ [digit_char (m mod 10)]"
      by (subst str_nat.simps) simp
    from n m "1.prems" have a: "str_nat (n div 10) = str_nat (m div 10)"
      and b: "digit_char (n mod 10) = digit_char (m mod 10)"
      by auto
    from "1.IH" [OF False a] have d: "n div 10 = m div 10" .
    from b have e: "n mod 10 = m mod 10" by (intro digit_char_inj) auto
    from d e show ?thesis by (metis div_mult_mod_eq)
  qed
qed

lemma candidate_inj:
  "candidate category_dir original_stem sfx i = candidate category_dir original_stem sfx j \<Longrightarrow> i = j"
  by (simp add: candidate_def str_nat_inj)

lemma path_exists_dom: "path_exists fs p \<Longrightarrow> p \<in> fst ` set fs"
proof (cases "lookup fs p")
  case None
  assume "path_exists fs p"
  with None show ?thesis by (simp add: path_exists_def)
next
  case (Some n)
  hence "(p, n) \<in> set fs" unfolding lookup_def by (rule map_of_SomeD)
  thus ?thesis by (rule rev_image_eqI) simp
qed

lemma finite_taken: "finite (taken fs category_dir original_stem sfx counter)"
proof -
  have "taken fs category_dir original_stem sfx counter
          \<subseteq> candidate category_dir original_stem sfx -` (fst ` set fs)"
    by (auto simp: taken_def dest: path_exists_dom)
  moreover have "finite (candidate category_dir original_stem sfx -` (fst ` set fs))"
    by (rule finite_vimageI) (auto intro!: injI dest: candidate_inj)
  ultimately show ?thesis by (rule finite_subset)
qed

termination resolve
proof (relation "measure (\<lambda>(env, fs, category_dir, original_stem, sfx, counter, new_path).
          card (taken fs category_dir original_stem sfx counter)
            + (if path_exists fs new_path then 1 else 0))")
  show "wf (measure (\<lambda>(env, fs, category_dir, original_stem, sfx, counter, new_path).
          card (taken fs category_dir original_stem sfx counter)
            + (if path_exists fs new_path then 1 else 0)))"
    by simp
next
  fix env :: os_env and fs :: filesystem and category_dir original_stem sfx
    and counter :: nat and new_path :: path
  assume ex: "path_exists fs new_path"
  let ?T = "taken fs category_dir original_stem sfx"
  let ?c = "candidate category_dir original_stem sfx counter"
  have split: "?T counter = ?T (counter + 1) \<union> (if path_exists fs ?c then {counter} else {})"
    by (auto simp: taken_def Suc_le_eq order.strict_iff_order)
  have fresh: "counter \<notin> ?T (counter + 1)"
    by (simp add: taken_def)
  have "card (?T counter) = card (?T (counter + 1)) + (if path_exists fs ?c then 1 else 0)"
    using fresh finite_taken [of fs category_dir original_stem sfx "counter + 1"]
    by (subst split) simp
  with ex show "((env, fs, category_dir, original_stem, sfx, counter + 1, ?c),
          (env, fs, category_dir, original_stem, sfx, counter, new_path))
        \<in> measure (\<lambda>(env, fs, category_dir, original_stem, sfx, counter, new_path).
          card (taken fs category_dir original_stem sfx counter)
            + (if path_exists fs new_path then 1 else 0))"
    by simp
qed

declare resolve.simps [simp del]

section \<open>Classification\<close>

lemma table_extensions:
  "list_all (\<lambda>(category, extensions). list_all wf_extension extensions) CATEGORIES"
  by code_simp

lemma table_entry_wf:
  assumes "e \<in> set (concat (map snd CATEGORIES))"
  shows "wf_extension e"
  using assms table_extensions by (fastforce simp: list_all_iff)

lemma empty_suffix_others: "first_category CATEGORIES [] = ''Others''"
  by code_simp

lemma lower_Nil: "lower env [] = []"
  by (simp add: lower_def)

lemma rfind_None: "c \<notin> set xs \<Longrightarrow> rfind c xs = None"
  by (induction xs) auto

lemma rfind_append: "c \<notin> set r \<Longrightarrow> rfind c (s @ c # r) = Some (length s)"
  by (induction s) (auto simp: rfind_None)

lemma suffix_of_name_ext:
  "s \<noteq> [] \<Longrightarrow> r \<noteq> [] \<Longrightarrow> CHR ''.'' \<notin> set r \<Longrightarrow>
     suffix_of_name (s @ CHR ''.'' # r) = CHR ''.'' # r"
  by (simp add: suffix_of_name_def rfind_append)

lemma suffix_of_name_dotfile: "CHR ''.'' \<notin> set r \<Longrightarrow> suffix_of_name (CHR ''.'' # r) = []"
  using rfind_append [of "CHR ''.''" r "[]"] by (simp add: suffix_of_name_def)

lemma suffix_snoc: "suffix (d @ [n]) = suffix_of_name n"
  by (simp add: suffix_def name_of_def)

lemma first_category_find:
  "first_category t e =
     (case find (\<lambda>(category, extensions). e \<in> set extensions) t of
        None \<Rightarrow> ''Others'' | Some (category, extensions) \<Rightarrow> category)"
  by (induction t e rule: first_category.induct) auto

lemma first_category_unique:
  "map fst (filter (\<lambda>(category, extensions). e \<in> set extensions) t) = [c] \<Longrightarrow>
     first_category t e = c"
  by (induction t e rule: first_category.induct) (auto split: if_splits)

text \<open>
  C4, amended. \<open>get_category\<close> is a function of the path's last component: it returns
  the first category, in the order of the table, whose list holds the lowercased final
  suffix, and \<open>Others\<close> when no list holds it. When the lower case of a suffix (a dot
  and at least one character, none of them a dot) is an extension held by exactly one
  category, every name made of a non-empty stem followed by that suffix is given that
  category, whatever \<open>str.lower\<close> does on the platform.
\<close>

theorem get_category_first_match:
  "get_category env p =
     (case find (\<lambda>(category, extensions). lower env (suffix p) \<in> set extensions) CATEGORIES of
        None \<Rightarrow> ''Others''
      | Some (category, extensions) \<Rightarrow> category)
   \<and> (categories_of (lower env e) = [c] \<and> wf_extension e \<and> s \<noteq> [] \<longrightarrow>
        get_category env (d @ [s @ e]) = c)"
proof (intro conjI impI)
  show "get_category env p =
     (case find (\<lambda>(category, extensions). lower env (suffix p) \<in> set extensions) CATEGORIES of
        None \<Rightarrow> ''Others''
      | Some (category, extensions) \<Rightarrow> category)"
    unfolding get_category_def by (rule first_category_find)
next
  assume h: "categories_of (lower env e) = [c] \<and> wf_extension e \<and> s \<noteq> []"
  then obtain r where e: "e = CHR ''.'' # r" and r: "r \<noteq> []" "CHR ''.'' \<notin> set r"
    by (cases e) (auto simp: wf_extension_def)
  from h r have "suffix (d @ [s @ e]) = e"
    unfolding e suffix_snoc by (intro suffix_of_name_ext) simp_all
  moreover from h have "first_category CATEGORIES (lower env e) = c"
    by (intro first_category_unique) (simp add: categories_of_def)
  ultimately show "get_category env (d @ [s @ e]) = c"
    by (simp add: get_category_def)
qed

theorem get_category_first_match_witness:
  "categories_of (lower never ''.DOCX'') = [''Documents'']
   \<and> wf_extension ''.DOCX''
   \<and> get_category never [''home'', ''x.DOCX''] = ''Documents''"
proof -
  have h: "categories_of (lower never ''.DOCX'') = [''Documents'']" by code_simp
  have w: "wf_extension ''.DOCX''" by (simp add: wf_extension_def)
  from get_category_first_match
         [where env = never and e = "''.DOCX''" and c = "''Documents''" and s = "''x''"
            and d = "[''home'']",
          THEN conjunct2] h w
  show ?thesis by simp
qed

text \<open>
  C4 as stated fails for a name that is the extension itself: \<open>.docx\<close> is held by
  the Documents list alone and the name \<open>.docx\<close> ends in it, yet its final suffix is
  empty and it is classified as \<open>Others\<close>.
\<close>

theorem get_category_bare_extension_counterexample:
  "categories_of ''.docx'' = [''Documents'']
   \<and> get_category never [''home'', ''.docx''] = ''Others''"
  by code_simp

text \<open>
  Letter case outside ASCII: \<open>movie.mKv\<close>, written with the Kelvin sign, is a video
  where \<open>str.lower\<close> maps the sign to k, and is not where only A to Z are mapped.
\<close>

lemma kelvin_sign_suffix:
  "lower unicode (CHR ''.'' # CHR ''m'' # kelvin_sign @ ''v'') = ''.mkv''"
  "get_category unicode [''d'', ''movie.m'' @ kelvin_sign @ ''v''] = ''Videos''"
  "get_category never [''d'', ''movie.m'' @ kelvin_sign @ ''v''] = ''Others''"
  by code_simp+

text \<open>
  C10, amended. A name made of a single leading dot and no other dot has an empty
  final suffix and is classified as \<open>Others\<close>; in particular the file whose whole name
  is an entry of the table is never matched by that entry.
\<close>

theorem dotfile_is_others:
  "(CHR ''.'' \<notin> set r \<longrightarrow>
      suffix (d @ [CHR ''.'' # r]) = [] \<and> get_category env (d @ [CHR ''.'' # r]) = ''Others'')
   \<and> (e \<in> set (concat (map snd CATEGORIES)) \<longrightarrow> get_category env (d @ [e]) = ''Others'')"
proof (intro conjI impI)
  assume r: "CHR ''.'' \<notin> set r"
  thus s: "suffix (d @ [CHR ''.'' # r]) = []"
    by (simp add: suffix_snoc suffix_of_name_dotfile)
  show "get_category env (d @ [CHR ''.'' # r]) = ''Others''"
    by (simp add: get_category_def s lower_Nil empty_suffix_others)
next
  assume "e \<in> set (concat (map snd CATEGORIES))"
  hence "wf_extension e" by (rule table_entry_wf)
  then obtain r where e: "e = CHR ''.'' # r" and r: "CHR ''.'' \<notin> set r"
    by (cases e) (auto simp: wf_extension_def)
  hence "suffix (d @ [e]) = []"
    by (simp add: suffix_snoc suffix_of_name_dotfile)
  thus "get_category env (d @ [e]) = ''Others''"
    by (simp add: get_category_def lower_Nil empty_suffix_others)
qed

theorem dotfile_is_others_witness:
  "CHR ''.'' \<notin> set ''gitignore''
   \<and> ''.gitignore'' \<in> set (concat (map snd CATEGORIES))
   \<and> suffix [''repo'', ''.gitignore''] = []
   \<and> get_category never [''repo'', ''.gitignore''] = ''Others''"
proof -
  have h1: "CHR ''.'' \<notin> set ''gitignore''" by simp
  have h2: "''.gitignore'' \<in> set (concat (map snd CATEGORIES))" by code_simp
  from dotfile_is_others [where r = "''gitignore''" and d = "[''repo'']" and e = "''.gitignore''"
                            and env = never]
    h1 h2
  show ?thesis by (simp del: set_concat)
qed

text \<open>
  C10 as stated fails in its last clause: the entry \<open>.gitignore\<close>, held by the Code
  list alone, is matched by the name \<open>Python.gitignore\<close>.
\<close>

theorem dotfile_entry_matched_counterexample:
  "categories_of ''.gitignore'' = [''Code'']
   \<and> suffix [''repo'', ''Python.gitignore''] = ''.gitignore''
   \<and> get_category never [''repo'', ''Python.gitignore''] = ''Code''"
  by code_simp

section \<open>Conflict resolution\<close>

lemma resolve_raises:
  "stat_error env new_path = Some e \<Longrightarrow>
     resolve env fs category_dir original_stem sfx counter new_path = Inl e"
  by (subst resolve.simps) simp

lemma resolve_taken:
  "stat_error env new_path = None \<Longrightarrow> path_exists fs new_path \<Longrightarrow>
     resolve env fs category_dir original_stem sfx counter new_path
       = resolve env fs category_dir original_stem sfx (counter + 1)
           (candidate category_dir original_stem sfx counter)"
  by (subst resolve.simps) simp

lemma resolve_not_taken:
  "stat_error env new_path = None \<Longrightarrow> \<not> path_exists fs new_path \<Longrightarrow>
     resolve env fs category_dir original_stem sfx counter new_path = Inr new_path"
  by (subst resolve.simps) simp

lemma resolve_free:
  "resolve env fs category_dir original_stem sfx counter new_path = Inr p \<Longrightarrow>
     \<not> path_exists fs p"
proof (induction env fs category_dir original_stem sfx counter new_path rule: resolve.induct)
  case (1 env fs category_dir original_stem sfx counter new_path)
  show ?case
  proof (cases "stat_error env new_path")
    case (Some e)
    with "1.prems" show ?thesis by (simp add: resolve_raises)
  next
    case None
    show ?thesis
    proof (cases "path_exists fs new_path")
      case True
      with None "1.prems" "1.IH" show ?thesis by (simp add: resolve_taken)
    next
      case False
      with None "1.prems" show ?thesis by (simp add: resolve_not_taken)
    qed
  qed
qed

lemma resolve_chain:
  "resolve env fs category_dir original_stem sfx counter new_path = Inr p \<Longrightarrow>
     path_exists fs new_path \<Longrightarrow>
     \<exists>k\<ge>counter. p = candidate category_dir original_stem sfx k
        \<and> (\<forall>i. counter \<le> i \<and> i < k \<longrightarrow> path_exists fs (candidate category_dir original_stem sfx i))"
proof (induction env fs category_dir original_stem sfx counter new_path rule: resolve.induct)
  case (1 env fs category_dir original_stem sfx counter new_path)
  let ?c = "candidate category_dir original_stem sfx counter"
  from "1.prems" have ok: "stat_error env new_path = None"
    by (cases "stat_error env new_path") (simp_all add: resolve_raises)
  from "1.prems" have next_run:
    "resolve env fs category_dir original_stem sfx (counter + 1) ?c = Inr p"
    by (simp add: resolve_taken [OF ok])
  hence ok': "stat_error env ?c = None"
    by (cases "stat_error env ?c") (simp_all add: resolve_raises)
  show ?case
  proof (cases "path_exists fs ?c")
    case False
    with next_run ok' have "p = ?c" by (simp add: resolve_not_taken)
    thus ?thesis by (intro exI [of _ counter]) auto
  next
    case True
    from "1.IH" [OF ok "1.prems"(2) next_run True] obtain k where k: "counter + 1 \<le> k"
      "p = candidate category_dir original_stem sfx k"
      "\<forall>i. counter + 1 \<le> i \<and> i < k \<longrightarrow> path_exists fs (candidate category_dir original_stem sfx i)"
      by blast
    have "\<forall>i. counter \<le> i \<and> i < k \<longrightarrow> path_exists fs (candidate category_dir original_stem sfx i)"
    proof (intro allI impI)
      fix i assume i: "counter \<le> i \<and> i < k"
      show "path_exists fs (candidate category_dir original_stem sfx i)"
      proof (cases "i = counter")
        case True with \<open>path_exists fs ?c\<close> show ?thesis by simp
      next
        case False with i k(3) show ?thesis by simp
      qed
    qed
    with k show ?thesis by (intro exI [of _ k]) simp
  qed
qed

lemma resolve_first:
  "resolve env fs category_dir original_stem sfx counter new_path = Inr p \<Longrightarrow>
     \<not> path_exists fs new_path \<Longrightarrow> p = new_path"
  by (cases "stat_error env new_path") (simp_all add: resolve_raises resolve_not_taken)

lemma resolve_returns:
  "stat_error env new_path = None \<Longrightarrow>
   (\<And>k. stat_error env (candidate category_dir original_stem sfx k) = None) \<Longrightarrow>
     \<exists>p. resolve env fs category_dir original_stem sfx counter new_path = Inr p"
proof (induction env fs category_dir original_stem sfx counter new_path rule: resolve.induct)
  case (1 env fs category_dir original_stem sfx counter new_path)
  show ?case
  proof (cases "path_exists fs new_path")
    case True
    from "1.IH" [OF "1.prems"(1) True "1.prems"(2) "1.prems"(2)]
    show ?thesis by (simp add: resolve_taken [OF "1.prems"(1) True])
  next
    case False
    with "1.prems"(1) show ?thesis by (simp add: resolve_not_taken)
  qed
qed

lemma report_stem: "stem_of_name ''report.pdf'' = ''report''"
  by code_simp

lemma report_suffix: "suffix_of_name ''report.pdf'' = ''.pdf''"
  by code_simp

lemma digit_chars: "char_of (49::nat) = CHR ''1''" "char_of (50::nat) = CHR ''2''"
  by (simp_all add: char_of_def bit_0)

lemma str_nat_1: "str_nat (Suc 0) = ''1''"
  by (subst str_nat.simps) (simp add: digit_char_def digit_chars)

lemma str_nat_2: "str_nat (Suc (Suc 0)) = ''2''"
  by (subst str_nat.simps) (simp add: digit_char_def digit_chars)

lemma candidate_report:
  "candidate category_dir ''report'' ''.pdf'' (Suc 0) = category_dir @ [''report_1.pdf'']"
  "candidate category_dir ''report'' ''.pdf'' (Suc (Suc 0)) = category_dir @ [''report_2.pdf'']"
  by (simp_all add: candidate_def str_nat_1 str_nat_2)

text \<open>
  C5, amended. When the conflict loop returns a destination, \<open>stat\<close> finds neither a
  file nor a directory there in the file system the loop ran on. The destination is
  the desired name when that is free in this sense; otherwise it is the candidate
  \<open>stem_k suffix\<close> for the least \<open>k \<ge> 1\<close> that is free, every smaller one being
  taken. The loop returns whenever \<open>exists\<close> raises neither at the desired name nor at
  a candidate. With \<open>report.pdf\<close> already in the category directory, a colliding
  \<open>report.pdf\<close> goes to \<open>report_1.pdf\<close>, and to \<open>report_2.pdf\<close> when that is
  taken too.
\<close>

theorem resolve_destination_free:
  "(resolve_destination env fs category_dir file_path = Inr new_path \<longrightarrow>
      \<not> path_exists fs new_path
      \<and> (if path_exists fs (category_dir @ [name_of file_path])
         then \<exists>k\<ge>1. new_path = candidate category_dir (stem file_path) (suffix file_path) k
                \<and> (\<forall>i. 1 \<le> i \<and> i < k \<longrightarrow>
                       path_exists fs (candidate category_dir (stem file_path) (suffix file_path) i))
         else new_path = category_dir @ [name_of file_path]))
   \<and> (stat_error env (category_dir @ [name_of file_path]) = None
        \<and> (\<forall>k. stat_error env (candidate category_dir (stem file_path) (suffix file_path) k) = None)
        \<longrightarrow> (\<exists>p. resolve_destination env fs category_dir file_path = Inr p))
   \<and> (name_of file_path = ''report.pdf'' \<and> path_exists fs (category_dir @ [''report.pdf''])
        \<and> \<not> path_exists fs (category_dir @ [''report_1.pdf''])
        \<and> stat_error env (category_dir @ [''report.pdf'']) = None
        \<and> stat_error env (category_dir @ [''report_1.pdf'']) = None
        \<longrightarrow> resolve_destination env fs category_dir file_path
              = Inr (category_dir @ [''report_1.pdf'']))
   \<and> (name_of file_path = ''report.pdf'' \<and> path_exists fs (category_dir @ [''report.pdf''])
        \<and> path_exists fs (category_dir @ [''report_1.pdf''])
        \<and> \<not> path_exists fs (category_dir @ [''report_2.pdf''])
        \<and> stat_error env (category_dir @ [''report.pdf'']) = None
        \<and> stat_error env (category_dir @ [''report_1.pdf'']) = None
        \<and> stat_error env (category_dir @ [''report_2.pdf'']) = None
        \<longrightarrow> resolve_destination env fs category_dir file_path
              = Inr (category_dir @ [''report_2.pdf'']))"
proof (intro conjI impI)
  assume run: "resolve_destination env fs category_dir file_path = Inr new_path"
  thus "\<not> path_exists fs new_path"
    unfolding resolve_destination_def by (rule resolve_free)
  show "if path_exists fs (category_dir @ [name_of file_path])
      then \<exists>k\<ge>1. new_path = candidate category_dir (stem file_path) (suffix file_path) k
             \<and> (\<forall>i. 1 \<le> i \<and> i < k \<longrightarrow>
                    path_exists fs (candidate category_dir (stem file_path) (suffix file_path) i))
      else new_path = category_dir @ [name_of file_path]"
  proof (cases "path_exists fs (category_dir @ [name_of file_path])")
    case True
    from resolve_chain [OF run [unfolded resolve_destination_def] True] True
    show ?thesis by simp
  next
    case False
    from resolve_first [OF run [unfolded resolve_destination_def] False] False
    show ?thesis by simp
  qed
next
  assume "stat_error env (category_dir @ [name_of file_path]) = None
        \<and> (\<forall>k. stat_error env (candidate category_dir (stem file_path) (suffix file_path) k) = None)"
  thus "\<exists>p. resolve_destination env fs category_dir file_path = Inr p"
    unfolding resolve_destination_def by (intro resolve_returns) simp_all
next
  assume h: "name_of file_path = ''report.pdf'' \<and> path_exists fs (category_dir @ [''report.pdf''])
        \<and> \<not> path_exists fs (category_dir @ [''report_1.pdf''])
        \<and> stat_error env (category_dir @ [''report.pdf'']) = None
        \<and> stat_error env (category_dir @ [''report_1.pdf'']) = None"
  hence st: "stem file_path = ''report''" "suffix file_path = ''.pdf''"
    by (simp_all add: stem_def suffix_def report_stem report_suffix)
  from h have "resolve env fs category_dir ''report'' ''.pdf'' 1 (category_dir @ [''report.pdf''])
      = resolve env fs category_dir ''report'' ''.pdf'' (Suc (Suc 0))
          (category_dir @ [''report_1.pdf''])"
    by (simp add: resolve_taken candidate_report)
  also from h have "\<dots> = Inr (category_dir @ [''report_1.pdf''])"
    by (simp add: resolve_not_taken)
  finally show "resolve_destination env fs category_dir file_path
      = Inr (category_dir @ [''report_1.pdf''])"
    using h by (simp add: resolve_destination_def st)
next
  assume h: "name_of file_path = ''report.pdf'' \<and> path_exists fs (category_dir @ [''report.pdf''])
        \<and> path_exists fs (category_dir @ [''report_1.pdf''])
        \<and> \<not> path_exists fs (category_dir @ [''report_2.pdf''])
        \<and> stat_error env (category_dir @ [''report.pdf'']) = None
        \<and> stat_error env (category_dir @ [''report_1.pdf'']) = None
        \<and> stat_error env (category_dir @ [''report_2.pdf'']) = None"
  hence st: "stem file_path = ''report''" "suffix file_path = ''.pdf''"
    by (simp_all add: stem_def suffix_def report_stem report_suffix)
  from h have "resolve env fs category_dir ''report'' ''.pdf'' 1 (category_dir @ [''report.pdf''])
      = resolve env fs category_dir ''report'' ''.pdf'' (Suc (Suc 0))
          (category_dir @ [''report_1.pdf''])"
    by (simp add: resolve_taken candidate_report)
  also from h have "\<dots> = resolve env fs category_dir ''report'' ''.pdf'' (Suc (Suc (Suc 0)))
      (category_dir @ [''report_2.pdf''])"
    by (simp add: resolve_taken candidate_report)
  also from h have "\<dots> = Inr (category_dir @ [''report_2.pdf''])"
    by (simp add: resolve_not_taken)
  finally show "resolve_destination env fs category_dir file_path
      = Inr (category_dir @ [''report_2.pdf''])"
    using h by (simp add: resolve_destination_def st)
qed

theorem resolve_destination_free_witness:
  "path_exists report_dir [''d'', ''Documents'', ''report.pdf'']
   \<and> resolve_destination never report_dir [''d'', ''Documents''] [''d'', ''report.pdf'']
       = Inr [''d'', ''Documents'', ''report_1.pdf'']
   \<and> path_exists report_dir2 [''d'', ''Documents'', ''report_1.pdf'']
   \<and> resolve_destination never report_dir2 [''d'', ''Documents''] [''d'', ''report.pdf'']
       = Inr [''d'', ''Documents'', ''report_2.pdf'']
   \<and> \<not> path_exists report_dir2 [''d'', ''Documents'', ''report_2.pdf'']
   \<and> (\<exists>p. resolve_destination never link_dir [''d'', ''Documents''] [''d'', ''report.pdf'']
            = Inr p)"
proof -
  have n: "name_of [''d'', ''report.pdf''] = ''report.pdf''" by (simp add: name_of_def)
  have s: "\<And>p. stat_error never p = None" by (simp add: never_def)
  have a: "path_exists report_dir [''d'', ''Documents'', ''report.pdf'']"
    "\<not> path_exists report_dir [''d'', ''Documents'', ''report_1.pdf'']"
    by (simp_all add: path_exists_def lookup_def report_dir_def)
  have b: "path_exists report_dir2 [''d'', ''Documents'', ''report.pdf'']"
    "path_exists report_dir2 [''d'', ''Documents'', ''report_1.pdf'']"
    "\<not> path_exists report_dir2 [''d'', ''Documents'', ''report_2.pdf'']"
    by (simp_all add: path_exists_def lookup_def report_dir2_def)
  note t = resolve_destination_free
  have h1: "name_of [''d'', ''report.pdf''] = ''report.pdf''
        \<and> path_exists report_dir ([''d'', ''Documents''] @ [''report.pdf''])
        \<and> \<not> path_exists report_dir ([''d'', ''Documents''] @ [''report_1.pdf''])
        \<and> stat_error never ([''d'', ''Documents''] @ [''report.pdf'']) = None
        \<and> stat_error never ([''d'', ''Documents''] @ [''report_1.pdf'']) = None"
    using n a by (simp add: s)
  have h2: "name_of [''d'', ''report.pdf''] = ''report.pdf''
        \<and> path_exists report_dir2 ([''d'', ''Documents''] @ [''report.pdf''])
        \<and> path_exists report_dir2 ([''d'', ''Documents''] @ [''report_1.pdf''])
        \<and> \<not> path_exists report_dir2 ([''d'', ''Documents''] @ [''report_2.pdf''])
        \<and> stat_error never ([''d'', ''Documents''] @ [''report.pdf'']) = None
        \<and> stat_error never ([''d'', ''Documents''] @ [''report_1.pdf'']) = None
        \<and> stat_error never ([''d'', ''Documents''] @ [''report_2.pdf'']) = None"
    using n b by (simp add: s)
  have h3: "stat_error never ([''d'', ''Documents''] @ [name_of [''d'', ''report.pdf'']]) = None
        \<and> (\<forall>k. stat_error never
                  (candidate [''d'', ''Documents''] (stem [''d'', ''report.pdf''])
                     (suffix [''d'', ''report.pdf'']) k) = None)"
    by (simp add: s)
  from t [THEN conjunct2, THEN conjunct2, THEN conjunct1, rule_format, OF h1]
  have r1: "resolve_destination never report_dir [''d'', ''Documents''] [''d'', ''report.pdf'']
       = Inr [''d'', ''Documents'', ''report_1.pdf'']" by simp
  from t [THEN conjunct2, THEN conjunct2, THEN conjunct2, rule_format, OF h2]
  have r2: "resolve_destination never report_dir2 [''d'', ''Documents''] [''d'', ''report.pdf'']
       = Inr [''d'', ''Documents'', ''report_2.pdf'']" by simp
  from t [THEN conjunct2, THEN conjunct1, rule_format, OF h3]
  have r3: "\<exists>p. resolve_destination never link_dir [''d'', ''Documents''] [''d'', ''report.pdf'']
            = Inr p" .
  from t [THEN conjunct1, rule_format, OF r1]
  have r4: "\<not> path_exists report_dir [''d'', ''Documents'', ''report_1.pdf'']" by simp
  from a b r1 r2 r3 r4 show ?thesis by simp
qed

text \<open>
  C5 as stated fails where the desired name is taken by a symbolic link whose target
  is missing: \<open>exists\<close> follows the link and finds nothing, so the path of the link is
  returned, and the move that follows replaces the link.
\<close>

theorem resolve_destination_link_counterexample:
  "resolve_destination never link_dir [''d'', ''Documents''] [''d'', ''report.pdf'']
     = Inr [''d'', ''Documents'', ''report.pdf'']
   \<and> lookup link_dir [''d'', ''Documents'', ''report.pdf''] = Some DanglingLink
   \<and> (case action_sort never (fresh_app link_dir [''d'']) of
        Inl e \<Rightarrow> None
      | Inr st \<Rightarrow> Some (lookup (disk st) [''d'', ''Documents'', ''report.pdf'']))
       = Some (Some (File ''second''))"
  by code_simp

text \<open>
  Where the candidate name is too long for \<open>stat\<close>, the loop raises and returns no
  destination at all.
\<close>

lemma resolve_destination_long_name:
  "resolve_destination name_max long_dir [''d'', ''Documents''] [''d'', long_name] = Inl OSError"
  by code_simp

text \<open>The two collisions of \<open>report.pdf\<close>, through \<open>action_sort\<close>.\<close>

lemma sort_places_colliding_reports:
  "(case action_sort never (fresh_app report_dir [''d'']) of
      Inl e \<Rightarrow> None | Inr st \<Rightarrow> Some (undo_data st))
     = Some [([''d'', ''Documents'', ''report_1.pdf''], [''d'', ''report.pdf''])]"
  "(case action_sort never (fresh_app report_dir2 [''d'']) of
      Inl e \<Rightarrow> None | Inr st \<Rightarrow> Some (undo_data st))
     = Some [([''d'', ''Documents'', ''report_2.pdf''], [''d'', ''report.pdf''])]"
  by code_simp+

section \<open>Undo consumes the log\<close>

lemma undo_sort_clears: "undo_data (undo_sort env st) = []"
  by (simp add: undo_sort_def update_status_def split: prod.split)

text \<open>
  C6. \<open>undo_sort\<close> always returns with an empty \<open>undo_data\<close>, whatever happened to
  the single reversals; a second \<open>undo_sort\<close> right after it only reports
  \<open>NothingToUndo\<close> and leaves the file system as it is.
\<close>

theorem undo_consumes_log:
  "undo_data (undo_sort env st) = []
   \<and> undo_sort env' (undo_sort env st) = update_status (undo_sort env st) NothingToUndo
   \<and> disk (undo_sort env' (undo_sort env st)) = disk (undo_sort env st)
   \<and> status (undo_sort env' (undo_sort env st)) = status (undo_sort env st) @ [NothingToUndo]"
proof -
  have a: "undo_data (undo_sort env st) = []" by (rule undo_sort_clears)
  hence b: "undo_sort env' (undo_sort env st) = update_status (undo_sort env st) NothingToUndo"
    by (simp add: undo_sort_def [of env' "undo_sort env st"])
  from a b show ?thesis by (simp add: update_status_def)
qed

text \<open>
  Runs in which the only reversal is refused, with and without a copy left at the
  original path by the move: the log is cleared all the same.
\<close>

lemma undo_after_failed_reversal:
  "undo_sort (locked [''d'', ''Images'', ''b.jpg'']) (mixed_sorted\<lparr>undo_data := [([''d'', ''Images'', ''b.jpg''], [''d'', ''b.jpg''])]\<rparr>)
   = mixed_sorted
       \<lparr>last_sort_results := [], undo_data := [],
        status := [SortingFilesIn [''d''], SortingComplete 2, UndoingLastSort,
                   ErrorUndoingMove ''b.jpg'' PermissionError, UndoComplete 0]\<rparr>"
  "undo_sort (locked_copied [''d'', ''Images'', ''b.jpg'']) (mixed_sorted\<lparr>undo_data := [([''d'', ''Images'', ''b.jpg''], [''d'', ''b.jpg''])]\<rparr>)
   = mixed_sorted
       \<lparr>disk := disk mixed_sorted @ [([''d'', ''b.jpg''], File ''partial'')],
        last_sort_results := [], undo_data := [],
        status := [SortingFilesIn [''d''], SortingComplete 2, UndoingLastSort,
                   ErrorUndoingMove ''b.jpg'' PermissionError, UndoComplete 0]\<rparr>"
  by code_simp+

section \<open>Sort then undo\<close>

text \<open>
  C1 at a directory holding the files \<open>Documents\<close> and \<open>a.pdf\<close>, listed in that
  order. The sort moves \<open>Documents\<close> to \<open>Others/Documents\<close>, then creates the
  directory \<open>Documents\<close> for \<open>a.pdf\<close>. The undo moves \<open>Others/Documents\<close> back
  to the path \<open>Documents\<close>, now a directory, so \<open>shutil.move\<close> puts the file inside
  it: the file ends at \<open>Documents/Documents\<close>, the directory \<open>Documents\<close> stays, and
  the undo reports completion.
\<close>

theorem sort_undo_clash:
  "(case action_sort never (fresh_app clash_dir [''d'']) of
      Inl e \<Rightarrow> None
    | Inr st \<Rightarrow> Some (undo_data st, disk (undo_sort never st), status (undo_sort never st)))
   = Some ([([''d'', ''Others'', ''Documents''], [''d'', ''Documents'']),
            ([''d'', ''Documents'', ''a.pdf''], [''d'', ''a.pdf''])],
           [([], Dir), ([''d''], Dir), ([''d'', ''Documents''], Dir),
            ([''d'', ''Documents'', ''Documents''], File ''notes''),
            ([''d'', ''a.pdf''], File ''paper'')],
           [SortingFilesIn [''d''], SortingComplete 2, UndoingLastSort, UndoComplete 1])"
  by code_simp

section \<open>Sorting twice\<close>


section \<open>Effects of the file system operations\<close>

lemma is_file_iff: "is_file fs p \<longleftrightarrow> (\<exists>c. lookup fs p = Some (File c))"
  by (auto simp: is_file_def split: option.splits node.splits)

lemma is_file_exists: "is_file fs p \<Longrightarrow> path_exists fs p"
  by (auto simp: is_file_iff path_exists_def)

lemma is_dir_exists: "is_dir fs p \<Longrightarrow> path_exists fs p"
  by (simp add: is_dir_def path_exists_def)

lemma lookup_None_exists: "lookup fs p = None \<Longrightarrow> \<not> path_exists fs p"
  by (simp add: path_exists_def)

lemma lookup_delete: "lookup (AList.delete k fs) = (lookup fs)(k := None)"
  by (rule ext) (simp add: lookup_def delete_conv)

lemma lookup_snoc: "lookup fs k = None \<Longrightarrow> lookup (fs @ [(k, v)]) = (lookup fs)(k \<mapsto> v)"
  by (auto simp: lookup_def fun_eq_iff map_add_def split: option.splits)

lemma lookup_put: "lookup (put p n fs) = (lookup fs)(p \<mapsto> n)"
proof -
  have "lookup (AList.delete p fs) p = None" by (simp add: lookup_delete)
  hence "lookup (AList.delete p fs @ [(p, n)]) = (lookup (AList.delete p fs))(p \<mapsto> n)"
    by (rule lookup_snoc)
  thus ?thesis by (simp add: put_def lookup_delete)
qed

lemma set_children: "set (children fs d) = {p. p \<noteq> [] \<and> parent p = d \<and> p \<in> fst ` set fs}"
  by (auto simp: children_def)

lemma distinct_children: "distinct (map fst fs) \<Longrightarrow> distinct (children fs d)"
  by (simp add: children_def)

lemma mkdir_new:
  assumes "\<not> path_exists fs p" and "mkdir env fs p = Inr fs'"
  shows "lookup fs' = (lookup fs)(p \<mapsto> Dir)" and "is_dir fs (parent p)"
  using assms
  by (auto simp: mkdir_def path_exists_def is_dir_def lookup_snoc split: option.splits node.splits)

lemma shutil_move_file:
  assumes src: "lookup fs src = Some (File c)" and dst: "\<not> path_exists fs dst"
    and ne: "src \<noteq> dst"
  obtains (moved) fs' where "shutil_move env fs src dst = (None, fs')"
      and "lookup fs' = (lookup fs)(src := None, dst \<mapsto> File c)" and "is_dir fs (parent dst)"
  | (failed) e fs' where "shutil_move env fs src dst = (Some e, fs')"
      and "lookup fs' = lookup fs \<or> (\<exists>c'. lookup fs' = (lookup fs)(dst \<mapsto> File c'))"
proof -
  from dst have nd: "\<not> is_dir fs dst" by (auto dest: is_dir_exists)
  show thesis
  proof (cases "lookup fs (parent dst)")
    case None
    with src nd have "shutil_move env fs src dst = (Some FileNotFoundError, fs)"
      by (simp add: shutil_move_def)
    thus thesis by (rule failed) simp
  next
    case (Some n)
    show thesis
    proof (cases "n = Dir")
      case False
      with Some src nd have "shutil_move env fs src dst = (Some NotADirectoryError, fs)"
        by (cases n) (simp_all add: shutil_move_def)
      thus thesis by (rule failed) simp
    next
      case True
      with Some have par: "lookup fs (parent dst) = Some Dir" by simp
      show thesis
      proof (cases "move_error env src dst")
        case None
        with par src nd have "shutil_move env fs src dst
            = (None, put dst (File c) (AList.delete src fs))"
          by (simp add: shutil_move_def)
        moreover have "lookup (put dst (File c) (AList.delete src fs))
            = (lookup fs)(src := None, dst \<mapsto> File c)"
          by (simp add: lookup_put lookup_delete)
        moreover from par have "is_dir fs (parent dst)" by (simp add: is_dir_def)
        ultimately show thesis by (rule moved)
      next
        case (Some e)
        show thesis
        proof (cases "move_debris env src dst")
          case None
          with Some par src nd have "shutil_move env fs src dst = (Some e, fs)"
            by (simp add: shutil_move_def)
          thus thesis by (rule failed) simp
        next
          case (Some c')
          with \<open>move_error env src dst = Some e\<close> par src nd ne
          have "shutil_move env fs src dst = (Some e, put dst (File c') fs)"
            by (simp add: shutil_move_def)
          thus thesis by (rule failed) (auto simp: lookup_put)
        qed
      qed
    qed
  qed
qed

lemma resolve_destination_new:
  "resolve_destination env fs category_dir file_path = Inr new_path \<Longrightarrow>
     \<not> path_exists fs new_path"
  unfolding resolve_destination_def by (rule resolve_free)

lemma resolve_destination_shape:
  assumes "resolve_destination env fs category_dir file_path = Inr new_path"
  shows "\<exists>x. new_path = category_dir @ [x]"
proof (cases "path_exists fs (category_dir @ [name_of file_path])")
  case True
  from resolve_chain [OF assms [unfolded resolve_destination_def] True]
  show ?thesis by (auto simp: candidate_def)
next
  case False
  from resolve_first [OF assms [unfolded resolve_destination_def] False]
  show ?thesis by simp
qed

lemma sort_file_step:
  assumes f: "lookup (disk s) f = Some (File c)" and par: "parent f \<noteq> cdir"
    and res: "map_of (last_sort_results s) cat = Some moved"
    and run: "sort_file env cdir cat s f = Inr s1"
  obtains (failed) e fs' x where
      "s1 = update_status (s\<lparr>disk := fs'\<rparr>) (ErrorMoving (name_of f) e)"
      "\<not> path_exists (disk s) (cdir @ [x])"
      "lookup fs' = lookup (disk s) \<or> (\<exists>c'. lookup fs' = (lookup (disk s))(cdir @ [x] \<mapsto> File c'))"
  | (moved) fs' x where
      "s1 = s\<lparr>disk := fs',
              last_sort_results := AList.update cat (moved @ [cdir @ [x]]) (last_sort_results s),
              undo_data := AList.update (cdir @ [x]) f (undo_data s)\<rparr>"
      "\<not> path_exists (disk s) (cdir @ [x])"
      "lookup fs' = (lookup (disk s))(f := None, cdir @ [x] \<mapsto> File c)"
      "is_dir (disk s) cdir"
proof -
  from run par obtain np where np: "resolve_destination env (disk s) cdir f = Inr np"
    by (cases "resolve_destination env (disk s) cdir f") (simp_all add: sort_file_def)
  from resolve_destination_shape [OF np] obtain x where x: "np = cdir @ [x]" ..
  from resolve_destination_new [OF np] have new: "\<not> path_exists (disk s) (cdir @ [x])"
    by (simp add: x)
  from par have ne: "f \<noteq> cdir @ [x]" by (auto simp: parent_def)
  from f new ne show thesis
  proof (cases rule: shutil_move_file [where env = env])
    case (moved fs')
    with run par np res have "s1 = s\<lparr>disk := fs',
              last_sort_results := AList.update cat (moved @ [cdir @ [x]]) (last_sort_results s),
              undo_data := AList.update (cdir @ [x]) f (undo_data s)\<rparr>"
      by (simp add: sort_file_def x)
    moreover from moved(3) have "is_dir (disk s) cdir" by (simp add: parent_def)
    ultimately show thesis using new moved(2) by (intro that(2)) simp_all
  next
    case (failed e fs')
    with run par np have "s1 = update_status (s\<lparr>disk := fs'\<rparr>) (ErrorMoving (name_of f) e)"
      by (simp add: sort_file_def x)
    thus thesis using new failed(2) by (rule that(1))
  qed
qed

section \<open>Association lists\<close>

lemma update_absent: "map_of al k = None \<Longrightarrow> AList.update k v al = al @ [(k, v)]"
  by (induction al) (auto split: if_splits)

lemma set_update_subset: "set (AList.update k v al) \<subseteq> insert (k, v) (set al)"
  by (induction al) auto

lemma mset_concat_update:
  "map_of al k = Some v \<Longrightarrow>
     mset (concat (map snd (AList.update k (v @ [x]) al))) = add_mset x (mset (concat (map snd al)))"
  by (induction al) (auto split: if_splits)

section \<open>The first pass\<close>

lemma categorize_mset:
  "mset (concat (map snd (categorize env files acc))) = mset files + mset (concat (map snd acc))"
proof (induction files arbitrary: acc)
  case Nil
  show ?case by simp
next
  case (Cons f files)
  show ?case
  proof (cases "map_of acc (get_category env f)")
    case None
    thus ?thesis by (simp add: Cons.IH update_absent)
  next
    case (Some fl)
    thus ?thesis by (simp add: Cons.IH mset_concat_update)
  qed
qed

lemma grouped_update:
  assumes "grouped env acc" and "\<forall>f \<in> set fl. get_category env f = category"
  shows "grouped env (AList.update category fl acc)"
  using assms set_update_subset [of category fl acc] unfolding grouped_def by blast

lemma categorize_grouped: "grouped env acc \<Longrightarrow> grouped env (categorize env files acc)"
proof (induction files arbitrary: acc)
  case Nil
  thus ?case by simp
next
  case (Cons f files)
  show ?case
  proof (cases "map_of acc (get_category env f)")
    case None
    have "grouped env (AList.update (get_category env f) [f] acc)"
      using Cons.prems by (intro grouped_update) simp_all
    with None show ?thesis by (simp add: Cons.IH)
  next
    case (Some fl)
    hence "(get_category env f, fl) \<in> set acc" by (rule map_of_SomeD)
    with Cons.prems have "\<forall>g \<in> set (fl @ [f]). get_category env g = get_category env f"
      by (auto simp: grouped_def)
    hence "grouped env (AList.update (get_category env f) (fl @ [f]) acc)"
      using Cons.prems by (intro grouped_update)
    with Some show ?thesis by (simp add: Cons.IH)
  qed
qed

section \<open>A rule for the second pass\<close>

lemma sort_files_rule:
  assumes "sort_files env cdir cat s fl = Inr s'" and "P (fl @ rem) s"
    and "\<And>f rem' s0 s1. f \<in> set fl \<Longrightarrow> P (f # rem') s0 \<Longrightarrow>
           sort_file env cdir cat s0 f = Inr s1 \<Longrightarrow> P rem' s1"
  shows "P rem s'"
  using assms
proof (induction fl arbitrary: s)
  case Nil
  thus ?case by simp
next
  case (Cons f fl)
  from Cons.prems(1) obtain s1 where s1: "sort_file env cdir cat s f = Inr s1"
    and run: "sort_files env cdir cat s1 fl = Inr s'"
    by (cases "sort_file env cdir cat s f") simp_all
  from Cons.prems(2) have "P (f # fl @ rem) s" by simp
  with Cons.prems(3) [of f "fl @ rem" s s1] s1 have "P (fl @ rem) s1" by simp
  with run show ?case
  proof (rule Cons.IH)
    fix g rem' s0 s2
    assume "g \<in> set fl" "P (g # rem') s0" "sort_file env cdir cat s0 g = Inr s2"
    thus "P rem' s2" using Cons.prems(3) [of g rem' s0 s2] by simp
  qed
qed

lemma sort_categories_rule_aux:
  assumes mk: "\<And>cat fl rem s fs1. (cat, fl) \<in> set fbc \<Longrightarrow> fl \<noteq> [] \<Longrightarrow> P (fl @ rem) s \<Longrightarrow>
            \<not> path_exists (disk s) (D @ [cat]) \<Longrightarrow> mkdir env (disk s) (D @ [cat]) = Inr fs1 \<Longrightarrow>
            P (fl @ rem) (s\<lparr>disk := fs1\<rparr>)"
    and step: "\<And>cat fl f rem s s1. (cat, fl) \<in> set fbc \<Longrightarrow> f \<in> set fl \<Longrightarrow> P (f # rem) s \<Longrightarrow>
            sort_file env (D @ [cat]) cat s f = Inr s1 \<Longrightarrow> P rem s1"
  shows "set xs \<subseteq> set fbc \<Longrightarrow> sort_categories env D xs s = Inr s' \<Longrightarrow>
           P (concat (map snd xs)) s \<Longrightarrow> P [] s'"
proof (induction xs arbitrary: s)
  case Nil
  thus ?case by simp
next
  case (Cons x xs)
  obtain cat fl where x: "x = (cat, fl)" by (cases x)
  with Cons.prems have mem: "(cat, fl) \<in> set fbc" and sub: "set xs \<subseteq> set fbc" by auto
  let ?rem = "concat (map snd xs)"
  from Cons.prems x have P: "P (fl @ ?rem) s" by simp
  show ?case
  proof (cases "fl = []")
    case True
    with Cons.prems x P show ?thesis by (auto intro: Cons.IH [OF sub])
  next
    case False
    define r where "r = (if path_exists (disk s) (D @ [cat]) then Inr (disk s)
                         else mkdir env (disk s) (D @ [cat]))"
    from Cons.prems(2) x False obtain fs1 s2 where r: "r = Inr fs1"
      and inner: "sort_files env (D @ [cat]) cat (s\<lparr>disk := fs1\<rparr>) fl = Inr s2"
      and run: "sort_categories env D xs s2 = Inr s'"
      by (cases r)
         (auto simp: r_def Let_def py_exists_def split: sum.splits option.splits if_splits)
    have "P (fl @ ?rem) (s\<lparr>disk := fs1\<rparr>)"
    proof (cases "path_exists (disk s) (D @ [cat])")
      case True
      with r have "fs1 = disk s" by (simp add: r_def)
      with P show ?thesis by simp
    next
      case False
      with r have "mkdir env (disk s) (D @ [cat]) = Inr fs1" by (simp add: r_def)
      with mem \<open>fl \<noteq> []\<close> P False show ?thesis by (rule mk)
    qed
    with inner have "P ?rem s2"
      by (rule sort_files_rule) (rule step [OF mem])
    with sub run show ?thesis by (rule Cons.IH)
  qed
qed

lemma sort_categories_rule:
  assumes run: "sort_categories env D fbc s = Inr s'" and init: "P (concat (map snd fbc)) s"
    and mk: "\<And>cat fl rem s fs1. (cat, fl) \<in> set fbc \<Longrightarrow> fl \<noteq> [] \<Longrightarrow> P (fl @ rem) s \<Longrightarrow>
            \<not> path_exists (disk s) (D @ [cat]) \<Longrightarrow> mkdir env (disk s) (D @ [cat]) = Inr fs1 \<Longrightarrow>
            P (fl @ rem) (s\<lparr>disk := fs1\<rparr>)"
    and step: "\<And>cat fl f rem s s1. (cat, fl) \<in> set fbc \<Longrightarrow> f \<in> set fl \<Longrightarrow> P (f # rem) s \<Longrightarrow>
            sort_file env (D @ [cat]) cat s f = Inr s1 \<Longrightarrow> P rem s1"
  shows "P [] s'"
proof (rule sort_categories_rule_aux [where fbc = fbc and xs = fbc and P = P])
  show "set fbc \<subseteq> set fbc" by simp
  show "sort_categories env D fbc s = Inr s'" by (rule run)
  show "P (concat (map snd fbc)) s" by (rule init)
next
  fix cat fl rem s fs1
  assume "(cat, fl) \<in> set fbc" "fl \<noteq> []" "P (fl @ rem) s"
    "\<not> path_exists (disk s) (D @ [cat])" "mkdir env (disk s) (D @ [cat]) = Inr fs1"
  thus "P (fl @ rem) (s\<lparr>disk := fs1\<rparr>)" by (rule mk)
next
  fix cat fl f rem s s1
  assume "(cat, fl) \<in> set fbc" "f \<in> set fl" "P (f # rem) s"
    "sort_file env (D @ [cat]) cat s f = Inr s1"
  thus "P rem s1" by (rule step)
qed

section \<open>Preservation of the invariant\<close>

lemma files_of_iff:
  "f \<in> set (files_of fs D) \<longleftrightarrow> f \<noteq> [] \<and> parent f = D \<and> is_file fs f"
  by (auto simp: files_of_def set_children dest: is_file_exists path_exists_dom)

lemma distinct_files_of: "distinct (map fst fs) \<Longrightarrow> distinct (files_of fs D)"
  by (simp add: files_of_def distinct_children)

lemma child_length: "f \<noteq> [] \<Longrightarrow> parent f = D \<Longrightarrow> length f = length D + 1"
  by (cases f rule: rev_cases) (auto simp: parent_def)

lemma first_category_key: "first_category t e \<in> insert ''Others'' (fst ` set t)"
  by (induction t e rule: first_category.induct) auto

lemma others_key: "''Others'' \<in> set (map fst CATEGORIES)"
  by code_simp

lemma get_category_key: "get_category env f \<in> set (map fst CATEGORIES)"
proof -
  have k: "''Others'' \<in> fst ` set CATEGORIES"
    using others_key by (simp only: set_map)
  have "get_category env f \<in> insert ''Others'' (fst ` set CATEGORIES)"
    unfolding get_category_def by (rule first_category_key)
  hence "get_category env f \<in> fst ` set CATEGORIES"
    by (simp only: insert_absorb [OF k])
  thus ?thesis by (simp only: set_map)
qed

lemma map_of_key: "k \<in> set (map fst al) \<Longrightarrow> \<exists>v. map_of al k = Some v"
  by (cases "map_of al k") (auto simp: map_of_eq_None_iff)

lemma inv_logD:
  assumes "inv_log fs0 D s" and "(np, f) \<in> set (undo_data s)"
  shows "f \<in> set (files_of fs0 D)" and "lookup (disk s) np = lookup fs0 f"
    and "\<not> is_file (disk s) f" and "length np = length D + 2" and "path_exists (disk s) np"
proof -
  from assms show a: "f \<in> set (files_of fs0 D)" and b: "lookup (disk s) np = lookup fs0 f"
    and "\<not> is_file (disk s) f" and "length np = length D + 2"
    unfolding inv_log_def by blast+
  from a have "is_file fs0 f" by (simp add: files_of_iff)
  with b show "path_exists (disk s) np" by (auto simp: is_file_iff path_exists_def)
qed

lemma files_exist:
  assumes "f \<in> set (files_of fs0 D)" and "lookup fs f = lookup fs0 f"
  shows "path_exists fs f" and "is_file fs f"
  using assms by (auto simp: files_of_iff is_file_iff path_exists_def)

lemma inv_failed:
  assumes inv: "sort_inv env fs0 n0 D (f # rem) s"
  shows "sort_inv env fs0 n0 D rem (update_status s (ErrorMoving (name_of f) e))"
proof -
  let ?s = "update_status s (ErrorMoving (name_of f) e)"
  from inv have R: "inv_rem fs0 D (f # rem) s" and RES: "inv_results s" and LOG: "inv_log fs0 D s"
    and DONE: "inv_done fs0 n0 D (f # rem) s" and DIRS: "inv_dirs env fs0 D s" and TOP: "inv_top fs0 D s"
    by (simp_all add: sort_inv_def)
  have same: "disk ?s = disk s" "undo_data ?s = undo_data s"
    "last_sort_results ?s = last_sort_results s"
    "status ?s = status s @ [ErrorMoving (name_of f) e]"
    by (simp_all add: update_status_def)
  from R have 1: "inv_rem fs0 D rem ?s" by (simp add: inv_rem_def same)
  from RES have 2: "inv_results ?s" by (simp add: inv_results_def same)
  from LOG have 3: "inv_log fs0 D ?s" by (simp add: inv_log_def same)
  from R have f0: "lookup (disk s) f = lookup fs0 f" by (simp add: inv_rem_def)
  from DONE have n0: "n0 \<le> length (status s)" by (simp add: inv_done_def)
  have 4: "inv_done fs0 n0 D rem ?s"
    unfolding inv_done_def
  proof (intro conjI ballI)
    from n0 show "n0 \<le> length (status ?s)" by (simp add: same)
  next
    fix g assume "g \<in> set (files_of fs0 D)"
    with DONE have "g \<in> set (f # rem) \<or> g \<in> snd ` set (undo_data s)
          \<or> (lookup (disk s) g = lookup fs0 g
              \<and> (\<exists>e. ErrorMoving (name_of g) e \<in> set (drop n0 (status s))))"
      unfolding inv_done_def by blast
    with f0 n0 show "g \<in> set rem \<or> g \<in> snd ` set (undo_data ?s)
          \<or> (lookup (disk ?s) g = lookup fs0 g
              \<and> (\<exists>e. ErrorMoving (name_of g) e \<in> set (drop n0 (status ?s))))"
      unfolding same by auto
  qed
  from DIRS have 5: "inv_dirs env fs0 D ?s" by (simp add: inv_dirs_def same)
  from TOP have 6: "inv_top fs0 D ?s" by (simp add: inv_top_def same)
  from 1 2 3 4 5 6 show ?thesis by (simp add: sort_inv_def)
qed

lemma inv_disk:
  assumes inv: "sort_inv env fs0 n0 D rem s"
    and chg: "\<And>p. lookup fs1 p \<noteq> lookup (disk s) p \<Longrightarrow>
        \<not> path_exists (disk s) p
        \<and> ((lookup fs1 p = Some Dir \<and> (\<exists>f \<in> set (files_of fs0 D). p = D @ [get_category env f]))
           \<or> (is_file fs1 p \<and> length p = length D + 2))"
  shows "sort_inv env fs0 n0 D rem (s\<lparr>disk := fs1\<rparr>)"
proof -
  let ?s = "s\<lparr>disk := fs1\<rparr>"
  from inv have R: "inv_rem fs0 D rem s" and RES: "inv_results s" and LOG: "inv_log fs0 D s"
    and DONE: "inv_done fs0 n0 D rem s" and DIRS: "inv_dirs env fs0 D s" and TOP: "inv_top fs0 D s"
    by (simp_all add: sort_inv_def)
  have keep: "\<And>p. path_exists (disk s) p \<Longrightarrow> lookup fs1 p = lookup (disk s) p"
    using chg by blast
  have file': "\<And>p. length p = length D + 1 \<Longrightarrow> is_file fs1 p \<longleftrightarrow> is_file (disk s) p"
  proof -
    fix p :: path assume len: "length p = length D + 1"
    show "is_file fs1 p \<longleftrightarrow> is_file (disk s) p"
    proof (cases "lookup fs1 p = lookup (disk s) p")
      case True
      thus ?thesis by (simp add: is_file_def)
    next
      case False
      from chg [OF False] len have "lookup fs1 p = Some Dir" and "\<not> path_exists (disk s) p"
        by auto
      thus ?thesis by (auto simp: is_file_iff path_exists_def)
    qed
  qed
  have dir': "\<And>p. is_dir fs1 p \<Longrightarrow>
      is_dir (disk s) p \<or> (\<exists>f \<in> set (files_of fs0 D). p = D @ [get_category env f])"
  proof -
    fix p :: path assume d: "is_dir fs1 p"
    show "is_dir (disk s) p \<or> (\<exists>f \<in> set (files_of fs0 D). p = D @ [get_category env f])"
    proof (cases "lookup fs1 p = lookup (disk s) p")
      case True
      with d show ?thesis by (simp add: is_dir_def)
    next
      case False
      from chg [OF False] d show ?thesis by (auto simp: is_dir_def is_file_iff)
    qed
  qed
  have 1: "inv_rem fs0 D rem ?s"
    unfolding inv_rem_def
  proof (intro conjI ballI)
    from R show "distinct rem" by (simp add: inv_rem_def)
  next
    fix g assume "g \<in> set rem"
    with R have g: "g \<in> set (files_of fs0 D)" "lookup (disk s) g = lookup fs0 g"
      "g \<notin> snd ` set (undo_data s)" by (simp_all add: inv_rem_def)
    from files_exist(1) [OF g(1,2)] have "lookup fs1 g = lookup (disk s) g" by (rule keep)
    with g show "g \<in> set (files_of fs0 D)" "lookup (disk ?s) g = lookup fs0 g"
      "g \<notin> snd ` set (undo_data ?s)" by simp_all
  qed
  from RES have 2: "inv_results ?s" by (simp add: inv_results_def)
  have 3: "inv_log fs0 D ?s"
    unfolding inv_log_def
  proof (intro conjI ballI)
    from LOG show "distinct (map fst (undo_data ?s))" "distinct (map snd (undo_data ?s))"
      by (simp_all add: inv_log_def)
  next
    fix e assume e: "e \<in> set (undo_data ?s)"
    obtain k g where kg: "e = (k, g)" by (cases e)
    with e have mem: "(k, g) \<in> set (undo_data s)" by simp
    note d = inv_logD [OF LOG mem]
    from d(5) have "lookup fs1 k = lookup (disk s) k" by (rule keep)
    moreover from d(1) have "length g = length D + 1" by (simp add: files_of_iff child_length)
    hence "is_file fs1 g \<longleftrightarrow> is_file (disk s) g" by (rule file')
    ultimately
    show "case e of (np, f) \<Rightarrow> f \<in> set (files_of fs0 D) \<and> lookup (disk ?s) np = lookup fs0 f
          \<and> \<not> is_file (disk ?s) f \<and> length np = length D + 2"
      using d by (simp add: kg)
  qed
  have 4: "inv_done fs0 n0 D rem ?s"
    unfolding inv_done_def
  proof (intro conjI ballI)
    from DONE show "n0 \<le> length (status ?s)" by (simp add: inv_done_def)
  next
    fix g assume g: "g \<in> set (files_of fs0 D)"
    with DONE have "g \<in> set rem \<or> g \<in> snd ` set (undo_data s)
          \<or> (lookup (disk s) g = lookup fs0 g
              \<and> (\<exists>e. ErrorMoving (name_of g) e \<in> set (drop n0 (status s))))"
      unfolding inv_done_def by blast
    moreover have "lookup (disk s) g = lookup fs0 g \<Longrightarrow> lookup fs1 g = lookup fs0 g"
      using files_exist(1) [OF g] keep by simp
    ultimately show "g \<in> set rem \<or> g \<in> snd ` set (undo_data ?s)
          \<or> (lookup (disk ?s) g = lookup fs0 g
              \<and> (\<exists>e. ErrorMoving (name_of g) e \<in> set (drop n0 (status ?s))))"
      by auto
  qed
  have 5: "inv_dirs env fs0 D ?s"
    unfolding inv_dirs_def
  proof (intro conjI allI impI)
    from DIRS have "lookup (disk s) D = Some Dir" by (simp add: inv_dirs_def)
    moreover hence "path_exists (disk s) D" by (simp add: path_exists_def)
    ultimately show "lookup (disk ?s) D = Some Dir" using keep by simp
  next
    fix p assume "is_dir (disk ?s) p"
    hence "is_dir (disk s) p \<or> (\<exists>f \<in> set (files_of fs0 D). p = D @ [get_category env f])"
      using dir' by simp
    thus "is_dir fs0 p \<or> (\<exists>f \<in> set (files_of fs0 D). p = D @ [get_category env f])"
    proof
      assume "is_dir (disk s) p"
      with DIRS show ?thesis unfolding inv_dirs_def by blast
    next
      assume "\<exists>f \<in> set (files_of fs0 D). p = D @ [get_category env f]"
      thus ?thesis ..
    qed
  qed
  have 6: "inv_top fs0 D ?s"
    unfolding inv_top_def
  proof (intro allI impI)
    fix p assume p: "p \<noteq> [] \<and> parent p = D \<and> is_file (disk ?s) p"
    hence "length p = length D + 1" by (simp add: child_length)
    with p have f: "is_file (disk s) p" by (simp add: file')
    with p TOP have t: "p \<in> set (files_of fs0 D)" "p \<notin> snd ` set (undo_data s)"
      "lookup (disk s) p = lookup fs0 p" unfolding inv_top_def by blast+
    from is_file_exists [OF f] have "lookup fs1 p = lookup (disk s) p" by (rule keep)
    with t show "p \<in> set (files_of fs0 D) \<and> p \<notin> snd ` set (undo_data ?s)
          \<and> lookup (disk ?s) p = lookup fs0 p" by simp
  qed
  from 1 2 3 4 5 6 show ?thesis by (simp add: sort_inv_def)
qed

lemma inv_mkdir:
  assumes inv: "sort_inv env fs0 n0 D rem s"
    and new: "\<not> path_exists (disk s) (D @ [cat])"
    and L: "lookup fs1 = (lookup (disk s))(D @ [cat] \<mapsto> Dir)"
    and cat: "\<exists>f \<in> set (files_of fs0 D). get_category env f = cat"
  shows "sort_inv env fs0 n0 D rem (s\<lparr>disk := fs1\<rparr>)"
  using inv
proof (rule inv_disk)
  fix p assume "lookup fs1 p \<noteq> lookup (disk s) p"
  hence "p = D @ [cat]" by (auto simp: L split: if_splits)
  with new cat show "\<not> path_exists (disk s) p
        \<and> ((lookup fs1 p = Some Dir \<and> (\<exists>f \<in> set (files_of fs0 D). p = D @ [get_category env f]))
           \<or> (is_file fs1 p \<and> length p = length D + 2))"
    by (auto simp: L)
qed

lemma inv_copy_left:
  assumes inv: "sort_inv env fs0 n0 D rem s"
    and new: "\<not> path_exists (disk s) (D @ [cat, x])"
    and L: "lookup fs' = lookup (disk s)
            \<or> (\<exists>c'. lookup fs' = (lookup (disk s))(D @ [cat, x] \<mapsto> File c'))"
  shows "sort_inv env fs0 n0 D rem (s\<lparr>disk := fs'\<rparr>)"
  using inv
proof (rule inv_disk)
  fix p assume ne: "lookup fs' p \<noteq> lookup (disk s) p"
  with L obtain c' where c': "lookup fs' = (lookup (disk s))(D @ [cat, x] \<mapsto> File c')" by auto
  with ne have "p = D @ [cat, x]" by (auto split: if_splits)
  with new c' show "\<not> path_exists (disk s) p
        \<and> ((lookup fs' p = Some Dir \<and> (\<exists>f \<in> set (files_of fs0 D). p = D @ [get_category env f]))
           \<or> (is_file fs' p \<and> length p = length D + 2))"
    by (simp add: is_file_iff)
qed

lemma inv_moved:
  assumes inv: "sort_inv env fs0 n0 D (f # rem) s"
    and new: "\<not> path_exists (disk s) np" and shape: "np = D @ [cat, x]"
    and c: "lookup (disk s) f = Some (File c)"
    and L: "lookup fs' = (lookup (disk s))(f := None, np \<mapsto> File c)"
    and res: "map_of (last_sort_results s) cat = Some moved"
  shows "sort_inv env fs0 n0 D rem
           (s\<lparr>disk := fs',
              last_sort_results := AList.update cat (moved @ [np]) (last_sort_results s),
              undo_data := AList.update np f (undo_data s)\<rparr>)"
proof -
  let ?s = "s\<lparr>disk := fs',
              last_sort_results := AList.update cat (moved @ [np]) (last_sort_results s),
              undo_data := AList.update np f (undo_data s)\<rparr>"
  from inv have R: "inv_rem fs0 D (f # rem) s" and RES: "inv_results s" and LOG: "inv_log fs0 D s"
    and DONE: "inv_done fs0 n0 D (f # rem) s" and DIRS: "inv_dirs env fs0 D s" and TOP: "inv_top fs0 D s"
    by (simp_all add: sort_inv_def)
  from R have ffiles: "f \<in> set (files_of fs0 D)" and f0: "lookup (disk s) f = lookup fs0 f"
    and fnew: "f \<notin> snd ` set (undo_data s)" and frem: "f \<notin> set rem" and drem: "distinct rem"
    by (simp_all add: inv_rem_def)
  from ffiles have flen: "length f = length D + 1" by (simp add: files_of_iff child_length)
  from shape have nplen: "length np = length D + 2" by simp
  from shape have nppar: "parent np = D @ [cat]" by (simp add: parent_def butlast_append)
  have npf: "np \<noteq> f" using flen nplen by auto
  have npkey: "np \<notin> fst ` set (undo_data s)"
  proof
    assume "np \<in> fst ` set (undo_data s)"
    then obtain g where "(np, g) \<in> set (undo_data s)" by auto
    from inv_logD(5) [OF LOG this] new show False by simp
  qed
  hence log': "AList.update np f (undo_data s) = undo_data s @ [(np, f)]"
    by (intro update_absent) (simp add: map_of_eq_None_iff)
  have disk': "\<And>p. lookup fs' p =
      (if p = np then Some (File c) else if p = f then None else lookup (disk s) p)"
    by (simp add: L)
  have keep: "\<And>p. path_exists (disk s) p \<Longrightarrow> p \<noteq> f \<Longrightarrow> lookup fs' p = lookup (disk s) p"
    using new by (auto simp: disk')
  have file': "\<And>p. is_file fs' p \<longleftrightarrow> p = np \<or> (p \<noteq> f \<and> is_file (disk s) p)"
    by (auto simp: is_file_def disk')
  have dir': "\<And>p. is_dir fs' p \<longleftrightarrow> p \<noteq> np \<and> p \<noteq> f \<and> is_dir (disk s) p"
    by (auto simp: is_dir_def disk')
  have 1: "inv_rem fs0 D rem ?s"
    unfolding inv_rem_def
  proof (intro conjI ballI)
    show "distinct rem" by fact
  next
    fix g assume gr: "g \<in> set rem"
    with R have g: "g \<in> set (files_of fs0 D)" "lookup (disk s) g = lookup fs0 g"
      "g \<notin> snd ` set (undo_data s)" by (simp_all add: inv_rem_def)
    from gr frem have gf: "g \<noteq> f" by auto
    from files_exist(1) [OF g(1,2)] gf have "lookup fs' g = lookup (disk s) g" by (rule keep)
    with g gf show "g \<in> set (files_of fs0 D)" "lookup (disk ?s) g = lookup fs0 g"
      "g \<notin> snd ` set (undo_data ?s)" by (simp_all add: log')
  qed
  from res have "cat \<in> set (map fst (last_sort_results s))"
    by (auto dest!: map_of_SomeD intro: rev_image_eqI)
  with RES have 2: "inv_results ?s"
    by (simp add: inv_results_def update_keys mset_concat_update [OF res] log')
  have 3: "inv_log fs0 D ?s"
    unfolding inv_log_def
  proof (intro conjI ballI)
    from LOG npkey show "distinct (map fst (undo_data ?s))" by (simp add: inv_log_def log')
    from LOG fnew show "distinct (map snd (undo_data ?s))" by (simp add: inv_log_def log')
  next
    fix e assume e: "e \<in> set (undo_data ?s)"
    obtain k g where kg: "e = (k, g)" by (cases e)
    from e kg have "(k, g) \<in> set (undo_data s) \<or> (k = np \<and> g = f)" by (auto simp: log')
    thus "case e of (np, f) \<Rightarrow> f \<in> set (files_of fs0 D) \<and> lookup (disk ?s) np = lookup fs0 f
          \<and> \<not> is_file (disk ?s) f \<and> length np = length D + 2"
    proof
      assume mem: "(k, g) \<in> set (undo_data s)"
      note d = inv_logD [OF LOG mem]
      from d(4) flen have "k \<noteq> f" by auto
      with d(5) have "lookup fs' k = lookup (disk s) k" by (rule keep)
      moreover from d(1) nplen have "g \<noteq> np" by (auto simp: files_of_iff child_length)
      ultimately show ?thesis using d by (simp add: kg file')
    next
      assume "k = np \<and> g = f"
      with ffiles f0 c npf nplen show ?thesis by (simp add: kg file' disk')
    qed
  qed
  have 4: "inv_done fs0 n0 D rem ?s"
    unfolding inv_done_def
  proof (intro conjI ballI)
    from DONE show "n0 \<le> length (status ?s)" by (simp add: inv_done_def)
  next
    fix g assume g: "g \<in> set (files_of fs0 D)"
    with DONE have "g \<in> set (f # rem) \<or> g \<in> snd ` set (undo_data s)
          \<or> (lookup (disk s) g = lookup fs0 g
              \<and> (\<exists>e. ErrorMoving (name_of g) e \<in> set (drop n0 (status s))))"
      unfolding inv_done_def by blast
    moreover have "lookup (disk s) g = lookup fs0 g \<Longrightarrow> g \<noteq> f \<Longrightarrow> lookup fs' g = lookup fs0 g"
      using files_exist(1) [OF g] keep by simp
    ultimately show "g \<in> set rem \<or> g \<in> snd ` set (undo_data ?s)
          \<or> (lookup (disk ?s) g = lookup fs0 g
              \<and> (\<exists>e. ErrorMoving (name_of g) e \<in> set (drop n0 (status ?s))))"
      by (cases "g = f") (auto simp: log')
  qed
  have 5: "inv_dirs env fs0 D ?s"
    unfolding inv_dirs_def
  proof (intro conjI allI impI)
    from DIRS have d: "lookup (disk s) D = Some Dir" by (simp add: inv_dirs_def)
    hence "path_exists (disk s) D" by (simp add: path_exists_def)
    moreover from flen have "D \<noteq> f" by auto
    ultimately have "lookup fs' D = lookup (disk s) D" by (rule keep)
    with d show "lookup (disk ?s) D = Some Dir" by simp
  next
    fix p assume "is_dir (disk ?s) p"
    hence "is_dir (disk s) p" by (simp add: dir')
    with DIRS show "is_dir fs0 p \<or> (\<exists>f \<in> set (files_of fs0 D). p = D @ [get_category env f])"
      unfolding inv_dirs_def by blast
  qed
  have 6: "inv_top fs0 D ?s"
    unfolding inv_top_def
  proof (intro allI impI)
    fix p assume p: "p \<noteq> [] \<and> parent p = D \<and> is_file (disk ?s) p"
    with nppar have pn: "p \<noteq> np" by auto
    with p have pf: "p \<noteq> f" and f: "is_file (disk s) p" by (simp_all add: file')
    with p TOP have t: "p \<in> set (files_of fs0 D)" "p \<notin> snd ` set (undo_data s)"
      "lookup (disk s) p = lookup fs0 p" unfolding inv_top_def by blast+
    from is_file_exists [OF f] pf have "lookup fs' p = lookup (disk s) p" by (rule keep)
    with t pf show "p \<in> set (files_of fs0 D) \<and> p \<notin> snd ` set (undo_data ?s)
          \<and> lookup (disk ?s) p = lookup fs0 p" by (simp add: log')
  qed
  from 1 2 3 4 5 6 show ?thesis by (simp add: sort_inv_def)
qed

lemma inv_status:
  assumes "sort_inv env fs0 n0 D rem s"
  shows "sort_inv env fs0 n0 D rem (update_status s m)"
proof -
  have same: "disk (update_status s m) = disk s" "undo_data (update_status s m) = undo_data s"
    "last_sort_results (update_status s m) = last_sort_results s"
    "status (update_status s m) = status s @ [m]"
    by (simp_all add: update_status_def)
  from assms have "inv_done fs0 n0 D rem s" by (simp add: sort_inv_def)
  hence "inv_done fs0 n0 D rem (update_status s m)"
    unfolding inv_done_def same by auto
  with assms show ?thesis
    by (simp add: sort_inv_def inv_rem_def inv_results_def inv_log_def inv_dirs_def inv_top_def same)
qed

lemma sort_inv_step:
  assumes inv: "sort_inv env fs0 n0 D (f # rem) s" and cat: "get_category env f = cat"
    and run: "sort_file env (D @ [cat]) cat s f = Inr s1"
  shows "sort_inv env fs0 n0 D rem s1"
proof -
  from inv have R: "inv_rem fs0 D (f # rem) s" and RES: "inv_results s"
    by (simp_all add: sort_inv_def)
  from R have ff: "f \<in> set (files_of fs0 D)" and f0: "lookup (disk s) f = lookup fs0 f"
    by (simp_all add: inv_rem_def)
  from ff f0 obtain c where c: "lookup (disk s) f = Some (File c)"
    by (auto simp: files_of_iff is_file_iff)
  from ff have par: "parent f \<noteq> D @ [cat]" by (simp add: files_of_iff)
  from RES get_category_key [of env f] cat have "cat \<in> set (map fst (last_sort_results s))"
    by (simp add: inv_results_def)
  hence "\<exists>moved. map_of (last_sort_results s) cat = Some moved" by (rule map_of_key)
  then obtain moved where res: "map_of (last_sort_results s) cat = Some moved" ..
  from c par res run show ?thesis
  proof (cases rule: sort_file_step)
    case (failed e fs' x)
    from failed(2,3) have "sort_inv env fs0 n0 D (f # rem) (s\<lparr>disk := fs'\<rparr>)"
      by (intro inv_copy_left [OF inv, where cat = cat and x = x]) simp_all
    thus ?thesis unfolding failed(1) by (rule inv_failed)
  next
    case (moved fs' x)
    from moved(2) have new: "\<not> path_exists (disk s) (D @ [cat, x])" by simp
    from moved(3) have L: "lookup fs' = (lookup (disk s))(f := None, D @ [cat, x] \<mapsto> File c)"
      by simp
    from inv_moved [OF inv new refl c L res] moved(1)
    show ?thesis by simp
  qed
qed

lemma sort_inv_mkdir:
  assumes "sort_inv env fs0 n0 D rem s" and "\<not> path_exists (disk s) (D @ [cat])"
    and "mkdir env (disk s) (D @ [cat]) = Inr fs1"
    and "\<exists>f \<in> set (files_of fs0 D). get_category env f = cat"
  shows "sort_inv env fs0 n0 D rem (s\<lparr>disk := fs1\<rparr>)"
  using assms(1,2) mkdir_new(1) [OF assms(2,3)] assms(4) by (rule inv_mkdir)

lemma sort_inv_init:
  assumes dir: "lookup (disk st) D = Some Dir" and rem: "mset rem = mset (files_of (disk st) D)"
    and dist: "distinct (map fst (disk st))" and n0: "n0 \<le> length (status st)"
  shows "sort_inv env (disk st) n0 D rem
           (st\<lparr>last_sort_results := map (\<lambda>category. (category, [])) (map fst CATEGORIES),
               undo_data := []\<rparr>)"
proof -
  from rem have set: "set rem = set (files_of (disk st) D)" by (rule mset_eq_setD)
  from rem dist have "distinct rem"
    by (metis distinct_files_of mset_eq_imp_distinct_iff)
  with set dir n0 show ?thesis
    by (auto simp: sort_inv_def inv_rem_def inv_results_def inv_log_def inv_done_def
        inv_dirs_def inv_top_def files_of_iff comp_def)
qed

lemma action_sort_cases:
  assumes sel: "selected_directory st = Some D" and run: "action_sort env st = Inr st'"
  obtains (empty) "files_of (disk st) D = []" and "is_dir (disk st) D"
      and "st' = update_status (update_status st (SortingFilesIn D)) NoFilesFound"
  | (sorted) st3 where "files_of (disk st) D \<noteq> []" and "is_dir (disk st) D"
      and "sort_categories env D (categorize env (files_of (disk st) D) [])
             ((update_status st (SortingFilesIn D))
                \<lparr>last_sort_results := map (\<lambda>category. (category, [])) (map fst CATEGORIES),
                 undo_data := []\<rparr>) = Inr st3"
      and "st' = update_status st3 (SortingComplete (total_sorted (last_sort_results st3)))"
proof -
  have d: "disk (update_status st (SortingFilesIn D)) = disk st" by (simp add: update_status_def)
  from run sel have dir: "is_dir (disk st) D"
    by (auto simp: action_sort_def Let_def d iterdir_def is_dir_def split: option.splits node.splits)
  hence it: "iterdir (disk st) D = Inr (children (disk st) D)" by (simp add: iterdir_def is_dir_def)
  show thesis
  proof (cases "files_of (disk st) D = []")
    case True
    with run sel it have "st' = update_status (update_status st (SortingFilesIn D)) NoFilesFound"
      by (simp add: action_sort_def Let_def d files_of_def)
    with True dir show thesis by (rule empty)
  next
    case False
    with run sel it obtain st3 where
      "sort_categories env D (categorize env (files_of (disk st) D) [])
             ((update_status st (SortingFilesIn D))
                \<lparr>last_sort_results := map (\<lambda>category. (category, [])) (map fst CATEGORIES),
                 undo_data := []\<rparr>) = Inr st3"
      "st' = update_status st3 (SortingComplete (total_sorted (last_sort_results st3)))"
      by (auto simp: action_sort_def Let_def d files_of_def split: sum.splits)
    with False dir show thesis by (rule sorted)
  qed
qed

lemma categorize_files:
  "mset (concat (map snd (categorize env files []))) = mset files"
  "(cat, fl) \<in> set (categorize env files []) \<Longrightarrow> f \<in> set fl \<Longrightarrow> get_category env f = cat \<and> f \<in> set files"
proof -
  show m: "mset (concat (map snd (categorize env files []))) = mset files"
    by (simp add: categorize_mset)
  assume mem: "(cat, fl) \<in> set (categorize env files [])" and f: "f \<in> set fl"
  have "grouped env (categorize env files [])" by (rule categorize_grouped) (simp add: grouped_def)
  with mem f have "get_category env f = cat" unfolding grouped_def by blast
  moreover from mem f have "f \<in> set (concat (map snd (categorize env files [])))" by force
  hence "f \<in> set files" using m by (metis mset_eq_setD)
  ultimately show "get_category env f = cat \<and> f \<in> set files" by simp
qed

lemma action_sort_inv:
  assumes sel: "selected_directory st = Some D" and dist: "distinct (map fst (disk st))"
    and run: "action_sort env st = Inr st'" and ne: "files_of (disk st) D \<noteq> []"
  shows "sort_inv env (disk st) (length (status st)) D [] st'"
  using sel run
proof (cases rule: action_sort_cases)
  case empty
  with ne show ?thesis by simp
next
  case (sorted st3)
  let ?fbc = "categorize env (files_of (disk st) D) []"
  let ?s1 = "update_status st (SortingFilesIn D)"
  let ?s2 = "?s1\<lparr>last_sort_results := map (\<lambda>category. (category, [])) (map fst CATEGORIES),
                 undo_data := []\<rparr>"
  have d1: "disk ?s1 = disk st" by (simp add: update_status_def)
  from sorted(2) have "lookup (disk ?s1) D = Some Dir" by (simp add: d1 is_dir_def)
  moreover have "mset (concat (map snd ?fbc)) = mset (files_of (disk ?s1) D)"
    by (simp add: categorize_files(1) d1)
  moreover from dist have "distinct (map fst (disk ?s1))" by (simp add: d1)
  moreover have "length (status st) \<le> length (status ?s1)" by (simp add: update_status_def)
  ultimately have "sort_inv env (disk ?s1) (length (status st)) D (concat (map snd ?fbc)) ?s2" by (rule sort_inv_init)
  hence init: "sort_inv env (disk st) (length (status st)) D (concat (map snd ?fbc)) ?s2" by (simp only: d1)
  from sorted(3) init have "sort_inv env (disk st) (length (status st)) D [] st3"
  proof (rule sort_categories_rule)
    fix cat fl rem s fs1
    assume mem: "(cat, fl) \<in> set ?fbc" and fl: "fl \<noteq> []"
      and inv: "sort_inv env (disk st) (length (status st)) D (fl @ rem) s"
      and new: "\<not> path_exists (disk s) (D @ [cat])" and mk: "mkdir env (disk s) (D @ [cat]) = Inr fs1"
    from fl obtain f where "f \<in> set fl" by (cases fl) auto
    with categorize_files(2) [OF mem] have "\<exists>f \<in> set (files_of (disk st) D). get_category env f = cat"
      by blast
    with inv new mk show "sort_inv env (disk st) (length (status st)) D (fl @ rem) (s\<lparr>disk := fs1\<rparr>)"
      by (rule sort_inv_mkdir)
  next
    fix cat fl f rem s s1
    assume mem: "(cat, fl) \<in> set ?fbc" and f: "f \<in> set fl"
      and inv: "sort_inv env (disk st) (length (status st)) D (f # rem) s"
      and run: "sort_file env (D @ [cat]) cat s f = Inr s1"
    from categorize_files(2) [OF mem f] have "get_category env f = cat" by simp
    with inv show "sort_inv env (disk st) (length (status st)) D rem s1"
      using run by (rule sort_inv_step)
  qed
  with sorted(4) show ?thesis by (simp add: inv_status)
qed

section \<open>Properties of a sort\<close>


lemma sort_mixed_locked:
  "action_sort (locked [''d'', ''a.pdf'']) (fresh_app mixed_dir [''d'']) = Inr mixed_locked"
  by code_simp

lemma sort_empty:
  "action_sort never (fresh_app empty_dir [''d''])
     = Inr (update_status (update_status (fresh_app empty_dir [''d'']) (SortingFilesIn [''d'']))
              NoFilesFound)"
  by code_simp









lemma distinct_snd_unique:
  assumes "distinct (map snd al)" and "(a, v) \<in> set al" and "(b, v) \<in> set al"
  shows "a = b"
proof -
  from assms(1) have "inj_on snd (set al)" by (simp add: distinct_map)
  from inj_onD [OF this _ assms(2,3)] show ?thesis by simp
qed

text \<open>
  A move that raises is reported and the loop goes on with the next file: the body
  stores no record for it, and only the file system that the failed move left behind
  is taken over.
\<close>

lemma raising_move_reported:
  assumes "parent file_path \<noteq> category_dir"
    and "resolve_destination env (disk s) category_dir file_path = Inr new_path"
    and "shutil_move env (disk s) file_path new_path = (Some e, fs')"
  shows "sort_file env category_dir category s file_path
           = Inr (update_status (s\<lparr>disk := fs'\<rparr>) (ErrorMoving (name_of file_path) e))"
    and "sort_files env category_dir category s (file_path # category_files)
           = sort_files env category_dir category
               (update_status (s\<lparr>disk := fs'\<rparr>) (ErrorMoving (name_of file_path) e))
               category_files"
    and "undo_data (update_status (s\<lparr>disk := fs'\<rparr>) (ErrorMoving (name_of file_path) e))
           = undo_data s"
    and "last_sort_results (update_status (s\<lparr>disk := fs'\<rparr>) (ErrorMoving (name_of file_path) e))
           = last_sort_results s"
proof -
  from assms show a: "sort_file env category_dir category s file_path
           = Inr (update_status (s\<lparr>disk := fs'\<rparr>) (ErrorMoving (name_of file_path) e))"
    by (simp add: sort_file_def)
  thus "sort_files env category_dir category s (file_path # category_files)
           = sort_files env category_dir category
               (update_status (s\<lparr>disk := fs'\<rparr>) (ErrorMoving (name_of file_path) e))
               category_files"
    by simp
qed (simp_all add: update_status_def)

text \<open>A move that succeeds stores one record, from the destination to the file.\<close>

lemma successful_move_recorded:
  assumes "parent file_path \<noteq> category_dir"
    and "resolve_destination env (disk s) category_dir file_path = Inr new_path"
    and "shutil_move env (disk s) file_path new_path = (None, fs')"
    and "map_of (last_sort_results s) category = Some moved"
  shows "sort_file env category_dir category s file_path
        = Inr (s\<lparr>disk := fs',
                 last_sort_results :=
                   AList.update category (moved @ [new_path]) (last_sort_results s),
                 undo_data := AList.update new_path file_path (undo_data s)\<rparr>)"
  using assms by (simp add: sort_file_def)

text \<open>
  After a sort that returned, on a file system whose paths are unique: every
  enumerated file either has exactly one record, whose destination now holds its
  content, or has no record, is still at its original path with its content, and was
  reported in an \<open>ErrorMoving\<close> message of this run.
\<close>

lemma sorted_or_reported:
  assumes "selected_directory st = Some D" and "distinct (map fst (disk st))"
    and "action_sort env st = Inr st'" and f: "f \<in> set (files_of (disk st) D)"
  shows "(\<exists>new_path. (new_path, f) \<in> set (undo_data st')
          \<and> lookup (disk st') new_path = lookup (disk st) f
          \<and> (\<forall>p. (p, f) \<in> set (undo_data st') \<longrightarrow> p = new_path))
      \<or> (f \<notin> snd ` set (undo_data st')
          \<and> lookup (disk st') f = lookup (disk st) f
          \<and> (\<exists>e. ErrorMoving (name_of f) e \<in> set (drop (length (status st)) (status st'))))"
proof -
  from f have ne: "files_of (disk st) D \<noteq> []" by auto
  from assms(1-3) ne have inv: "sort_inv env (disk st) (length (status st)) D [] st'"
    by (rule action_sort_inv)
  hence LOG: "inv_log (disk st) D st'" and DONE: "inv_done (disk st) (length (status st)) D [] st'"
    by (simp_all add: sort_inv_def)
  show ?thesis
  proof (cases "f \<in> snd ` set (undo_data st')")
    case True
    then obtain np where np: "(np, f) \<in> set (undo_data st')" by force
    from inv_logD(2) [OF LOG np] have "lookup (disk st') np = lookup (disk st) f" .
    moreover from LOG have "distinct (map snd (undo_data st'))" by (simp add: inv_log_def)
    hence "\<forall>p. (p, f) \<in> set (undo_data st') \<longrightarrow> p = np"
      using np by (blast intro: distinct_snd_unique)
    ultimately show ?thesis using np by blast
  next
    case False
    with DONE f show ?thesis unfolding inv_done_def by auto
  qed
qed

text \<open>
  The refused move of \<open>a.pdf\<close>, with a copy left at the destination: the file is
  still in place, no record names it, and \<open>b.jpg\<close> after it is sorted.
\<close>

lemma sort_mixed_copy_left:
  "(case action_sort (locked_copied [''d'', ''a.pdf'']) (fresh_app mixed_dir [''d'']) of
      Inl e \<Rightarrow> None
    | Inr st \<Rightarrow> Some (disk st, undo_data st, status st))
   = Some ([([], Dir), ([''d''], Dir), ([''d'', ''a.pdf''], File ''paper''),
            ([''d'', ''Documents''], Dir),
            ([''d'', ''Documents'', ''a.pdf''], File ''partial''),
            ([''d'', ''Images''], Dir),
            ([''d'', ''Images'', ''b.jpg''], File ''photo'')],
           [([''d'', ''Images'', ''b.jpg''], [''d'', ''b.jpg''])],
           [SortingFilesIn [''d''], ErrorMoving ''a.pdf'' PermissionError, SortingComplete 1])"
  by code_simp

text \<open>
  C3 at a directory in which a file whose name has 255 bytes meets a file of the
  same name in \<open>Documents\<close>, on a platform where \<open>stat\<close> fails for a longer name. The
  first candidate of the conflict loop has 257 bytes, so \<open>exists\<close> raises; the loop
  stands outside the \<open>try\<close> block, and the exception leaves \<open>action_sort\<close>. The file
  system is as before, no record was stored, the failure was not reported, and
  \<open>b.jpg\<close>, next in the batch, was never looked at.
\<close>

theorem long_name_aborts_sort:
  "(case action_sort name_max (fresh_app long_dir [''d'']) of
      Inl (e, st) \<Rightarrow> Some (e, disk st = long_dir, undo_data st, status st)
    | Inr st \<Rightarrow> None)
   = Some (OSError, True, [], [SortingFilesIn [''d'']])"
  by code_simp

text \<open>
  Where the same failure is raised by the move, inside the \<open>try\<close> block, it is
  reported and \<open>b.jpg\<close> is sorted.
\<close>

lemma long_name_move_refused:
  "(case action_sort name_max_move (fresh_app long_dir [''d'']) of
      Inl e \<Rightarrow> None
    | Inr st \<Rightarrow> Some (lookup (disk st) [''d'', long_name], undo_data st, status st))
   = Some (Some (File ''second''),
           [([''d'', ''Images'', ''b.jpg''], [''d'', ''b.jpg''])],
           [SortingFilesIn [''d''], ErrorMoving long_name OSError, SortingComplete 1])"
  by code_simp



lemma action_sort_empty:
  assumes "selected_directory st = Some D" and "is_dir (disk st) D" and "files_of (disk st) D = []"
  shows "action_sort env st
           = Inr (update_status (update_status st (SortingFilesIn D)) NoFilesFound)"
proof -
  have d: "disk (update_status st (SortingFilesIn D)) = disk st" by (simp add: update_status_def)
  from assms(2) have "iterdir (disk st) D = Inr (children (disk st) D)"
    by (simp add: iterdir_def is_dir_def)
  with assms show ?thesis by (simp add: action_sort_def Let_def d files_of_def)
qed



section \<open>When a sort returns\<close>

lemma sort_file_returns:
  assumes "\<And>p. stat_error env p = None"
  shows "\<exists>s1. sort_file env cdir cat s f = Inr s1"
proof (cases "parent f = cdir")
  case True
  thus ?thesis by (simp add: sort_file_def)
next
  case False
  from assms have "\<exists>p. resolve_destination env (disk s) cdir f = Inr p"
    unfolding resolve_destination_def by (intro resolve_returns)
  then obtain p where "resolve_destination env (disk s) cdir f = Inr p" ..
  with False show ?thesis by (simp add: sort_file_def)
qed

lemma sort_files_returns:
  assumes "\<And>p. stat_error env p = None"
  shows "\<exists>s'. sort_files env cdir cat s fl = Inr s'"
proof (induction fl arbitrary: s)
  case Nil
  show ?case by simp
next
  case (Cons f fl)
  from sort_file_returns [OF assms] obtain s1 where "sort_file env cdir cat s f = Inr s1"
    by blast
  with Cons.IH [of s1] show ?case by simp
qed

lemma sort_categories_returns:
  assumes stat: "\<And>p. stat_error env p = None"
    and mkok: "\<And>cat fl rem s. (cat, fl) \<in> set fbc \<Longrightarrow> fl \<noteq> [] \<Longrightarrow> P (fl @ rem) s \<Longrightarrow>
            \<not> path_exists (disk s) (D @ [cat]) \<Longrightarrow> \<exists>fs1. mkdir env (disk s) (D @ [cat]) = Inr fs1"
    and mk: "\<And>cat fl rem s fs1. (cat, fl) \<in> set fbc \<Longrightarrow> fl \<noteq> [] \<Longrightarrow> P (fl @ rem) s \<Longrightarrow>
            \<not> path_exists (disk s) (D @ [cat]) \<Longrightarrow> mkdir env (disk s) (D @ [cat]) = Inr fs1 \<Longrightarrow>
            P (fl @ rem) (s\<lparr>disk := fs1\<rparr>)"
    and step: "\<And>cat fl f rem s s1. (cat, fl) \<in> set fbc \<Longrightarrow> f \<in> set fl \<Longrightarrow> P (f # rem) s \<Longrightarrow>
            sort_file env (D @ [cat]) cat s f = Inr s1 \<Longrightarrow> P rem s1"
  shows "set xs \<subseteq> set fbc \<Longrightarrow> P (concat (map snd xs)) s \<Longrightarrow>
           \<exists>s'. sort_categories env D xs s = Inr s'"
proof (induction xs arbitrary: s)
  case Nil
  show ?case by simp
next
  case (Cons x xs)
  obtain cat fl where x: "x = (cat, fl)" by (cases x)
  with Cons.prems have mem: "(cat, fl) \<in> set fbc" and sub: "set xs \<subseteq> set fbc" by auto
  let ?rem = "concat (map snd xs)"
  from Cons.prems x have P: "P (fl @ ?rem) s" by simp
  show ?case
  proof (cases "fl = []")
    case True
    with P have "P ?rem s" by simp
    from Cons.IH [OF sub this] True x show ?thesis by simp
  next
    case False
    have ex: "py_exists env (disk s) (D @ [cat]) = Inr (path_exists (disk s) (D @ [cat]))"
      by (simp add: py_exists_def stat)
    have "\<exists>fs1. (if path_exists (disk s) (D @ [cat]) then Inr (disk s)
                 else mkdir env (disk s) (D @ [cat])) = Inr fs1
              \<and> P (fl @ ?rem) (s\<lparr>disk := fs1\<rparr>)"
    proof (cases "path_exists (disk s) (D @ [cat])")
      case True
      with P show ?thesis by simp
    next
      case new: False
      from mkok [OF mem False P new] obtain fs1
        where m: "mkdir env (disk s) (D @ [cat]) = Inr fs1" ..
      from mk [OF mem False P new m] m new show ?thesis by simp
    qed
    then obtain fs1 where r: "(if path_exists (disk s) (D @ [cat]) then Inr (disk s)
                 else mkdir env (disk s) (D @ [cat])) = Inr fs1"
      and P1: "P (fl @ ?rem) (s\<lparr>disk := fs1\<rparr>)" by blast
    from sort_files_returns [OF stat] obtain s2
      where inner: "sort_files env (D @ [cat]) cat (s\<lparr>disk := fs1\<rparr>) fl = Inr s2" by blast
    from inner P1 have "P ?rem s2"
      by (rule sort_files_rule) (rule step [OF mem])
    from Cons.IH [OF sub this] obtain s' where "sort_categories env D xs s2 = Inr s'" ..
    with False x ex r inner show ?thesis by (simp add: Let_def)
  qed
qed

lemma inv_links_disk:
  assumes "inv_links fs0 s"
    and "\<And>p. lookup fs1 p = Some DanglingLink \<Longrightarrow> lookup (disk s) p = Some DanglingLink"
  shows "inv_links fs0 (s\<lparr>disk := fs1\<rparr>)"
  using assms by (simp add: inv_links_def)

lemma inv_links_step:
  assumes inv: "sort_inv env fs0 n0 D (f # rem) s" and links: "inv_links fs0 s"
    and cat: "get_category env f = cat"
    and run: "sort_file env (D @ [cat]) cat s f = Inr s1"
  shows "inv_links fs0 s1"
proof -
  from inv have R: "inv_rem fs0 D (f # rem) s" and RES: "inv_results s"
    by (simp_all add: sort_inv_def)
  from R have ff: "f \<in> set (files_of fs0 D)" and f0: "lookup (disk s) f = lookup fs0 f"
    by (simp_all add: inv_rem_def)
  from ff f0 obtain c where c: "lookup (disk s) f = Some (File c)"
    by (auto simp: files_of_iff is_file_iff)
  from ff have par: "parent f \<noteq> D @ [cat]" by (simp add: files_of_iff)
  from RES get_category_key [of env f] cat have "cat \<in> set (map fst (last_sort_results s))"
    by (simp add: inv_results_def)
  hence "\<exists>moved. map_of (last_sort_results s) cat = Some moved" by (rule map_of_key)
  then obtain moved where res: "map_of (last_sort_results s) cat = Some moved" ..
  from c par res run show ?thesis
  proof (cases rule: sort_file_step)
    case (failed e fs' x)
    from failed(3) have "\<And>p. lookup fs' p = Some DanglingLink \<Longrightarrow>
        lookup (disk s) p = Some DanglingLink"
      by (auto split: if_splits)
    with links have "inv_links fs0 (s\<lparr>disk := fs'\<rparr>)" by (rule inv_links_disk)
    thus ?thesis by (simp add: failed(1) inv_links_def update_status_def)
  next
    case (moved fs' x)
    from moved(3) have "\<And>p. lookup fs' p = Some DanglingLink \<Longrightarrow>
        lookup (disk s) p = Some DanglingLink"
      by (auto split: if_splits)
    with links have "inv_links fs0 (s\<lparr>disk := fs'\<rparr>)" by (rule inv_links_disk)
    thus ?thesis by (simp add: moved(1) inv_links_def)
  qed
qed

text \<open>
  A sort returns, whatever moves the platform refuses, when \<open>exists\<close> raises nowhere,
  no \<open>mkdir\<close> is refused, and no category directory of the selected directory is a
  symbolic link with a missing target.
\<close>

lemma action_sort_returns:
  assumes sel: "selected_directory st = Some D" and dir: "is_dir (disk st) D"
    and dist: "distinct (map fst (disk st))"
    and stat: "\<And>p. stat_error env p = None" and nomk: "\<And>p. mkdir_error env p = None"
    and nolink: "\<And>c. c \<in> set (map fst CATEGORIES) \<Longrightarrow>
                   lookup (disk st) (D @ [c]) \<noteq> Some DanglingLink"
  shows "\<exists>st'. action_sort env st = Inr st'"
proof (cases "files_of (disk st) D = []")
  case True
  with sel dir show ?thesis by (simp add: action_sort_empty)
next
  case False
  let ?fbc = "categorize env (files_of (disk st) D) []"
  let ?s1 = "update_status st (SortingFilesIn D)"
  let ?s2 = "?s1\<lparr>last_sort_results := map (\<lambda>category. (category, [])) (map fst CATEGORIES),
                 undo_data := []\<rparr>"
  let ?P = "\<lambda>rem s. sort_inv env (disk st) (length (status st)) D rem s \<and> inv_links (disk st) s"
  have d1: "disk ?s1 = disk st" by (simp add: update_status_def)
  from dir have "lookup (disk ?s1) D = Some Dir" by (simp add: d1 is_dir_def)
  moreover have "mset (concat (map snd ?fbc)) = mset (files_of (disk ?s1) D)"
    by (simp add: categorize_files(1) d1)
  moreover from dist have "distinct (map fst (disk ?s1))" by (simp add: d1)
  moreover have "length (status st) \<le> length (status ?s1)" by (simp add: update_status_def)
  ultimately have "sort_inv env (disk ?s1) (length (status st)) D (concat (map snd ?fbc)) ?s2"
    by (rule sort_inv_init)
  hence "sort_inv env (disk st) (length (status st)) D (concat (map snd ?fbc)) ?s2"
    by (simp only: d1)
  moreover have "inv_links (disk st) ?s2" by (simp add: inv_links_def update_status_def)
  ultimately have init: "?P (concat (map snd ?fbc)) ?s2" by simp
  have "\<exists>s'. sort_categories env D ?fbc ?s2 = Inr s'"
  proof (rule sort_categories_returns [where P = ?P and fbc = ?fbc, OF stat _ _ _ subset_refl init])
    fix cat fl rem s
    assume mem: "(cat, fl) \<in> set ?fbc" and fl: "fl \<noteq> []"
      and P: "?P (fl @ rem) s" and new: "\<not> path_exists (disk s) (D @ [cat])"
    from fl obtain f where "f \<in> set fl" by (cases fl) auto
    with categorize_files(2) [OF mem] have "get_category env f = cat" by blast
    with get_category_key [of env f] have "cat \<in> set (map fst CATEGORIES)" by simp
    hence "lookup (disk st) (D @ [cat]) \<noteq> Some DanglingLink" by (rule nolink)
    with P have "lookup (disk s) (D @ [cat]) \<noteq> Some DanglingLink"
      by (auto simp: inv_links_def)
    with new have none: "lookup (disk s) (D @ [cat]) = None"
      by (auto simp: path_exists_def split: option.splits node.splits)
    from P have "lookup (disk s) D = Some Dir" by (simp add: sort_inv_def inv_dirs_def)
    with none show "\<exists>fs1. mkdir env (disk s) (D @ [cat]) = Inr fs1"
      by (simp add: mkdir_def nomk parent_def)
  next
    fix cat fl rem s fs1
    assume mem: "(cat, fl) \<in> set ?fbc" and fl: "fl \<noteq> []"
      and P: "?P (fl @ rem) s"
      and new: "\<not> path_exists (disk s) (D @ [cat])" and mk: "mkdir env (disk s) (D @ [cat]) = Inr fs1"
    from fl obtain f where "f \<in> set fl" by (cases fl) auto
    with categorize_files(2) [OF mem]
    have c: "\<exists>f \<in> set (files_of (disk st) D). get_category env f = cat" by blast
    from P have inv: "sort_inv env (disk st) (length (status st)) D (fl @ rem) s"
      and links: "inv_links (disk st) s" by simp_all
    from inv new mk c have "sort_inv env (disk st) (length (status st)) D (fl @ rem) (s\<lparr>disk := fs1\<rparr>)"
      by (rule sort_inv_mkdir)
    moreover from mkdir_new(1) [OF new mk]
    have "\<And>p. lookup fs1 p = Some DanglingLink \<Longrightarrow> lookup (disk s) p = Some DanglingLink"
      by (auto split: if_splits)
    with links have "inv_links (disk st) (s\<lparr>disk := fs1\<rparr>)" by (rule inv_links_disk)
    ultimately show "?P (fl @ rem) (s\<lparr>disk := fs1\<rparr>)" by simp
  next
    fix cat fl f rem s s1
    assume mem: "(cat, fl) \<in> set ?fbc" and f: "f \<in> set fl"
      and P: "?P (f # rem) s"
      and run: "sort_file env (D @ [cat]) cat s f = Inr s1"
    from categorize_files(2) [OF mem f] have c: "get_category env f = cat" by simp
    from P have inv: "sort_inv env (disk st) (length (status st)) D (f # rem) s"
      and links: "inv_links (disk st) s" by simp_all
    from inv c run have "sort_inv env (disk st) (length (status st)) D rem s1"
      by (rule sort_inv_step)
    moreover from inv links c run have "inv_links (disk st) s1" by (rule inv_links_step)
    ultimately show "?P rem s1" by simp
  qed
  then obtain s' where "sort_categories env D ?fbc ?s2 = Inr s'" ..
  moreover from dir have "iterdir (disk st) D = Inr (children (disk st) D)"
    by (simp add: iterdir_def is_dir_def)
  ultimately show ?thesis using sel False
    by (simp add: action_sort_def Let_def d1 files_of_def)
qed

text \<open>
  The proviso on \<open>mkdir\<close> is needed as well: where the category directory is a
  symbolic link with a missing target, \<open>exists\<close> finds nothing, \<open>mkdir\<close> raises
  outside every \<open>try\<close> block, and the sort ends there.
\<close>

lemma category_link_aborts_sort:
  "(case action_sort never
           (fresh_app [([], Dir), ([''d''], Dir), ([''d'', ''Documents''], DanglingLink),
                       ([''d'', ''a.pdf''], File ''paper'')] [''d'']) of
      Inl (e, st) \<Rightarrow> Some (e, undo_data st, status st)
    | Inr st \<Rightarrow> None)
   = Some (FileExistsError, [], [SortingFilesIn [''d'']])"
  by code_simp

section \<open>The cleanup of undo\<close>

lemma undo_file_dirs:
  assumes "undo_file env (s, cd) (np, orig) = (s', cd')" and "d \<in> set cd'"
  shows "d \<in> set cd \<or> (d = parent np \<and> path_exists (disk s) np)"
  using assms
  by (auto simp: undo_file_def Let_def py_exists_def
      split: if_splits sum.splits option.splits prod.splits)

lemma touched_dirs:
  "foldl (undo_file env) (s, cd) log = (s', cd') \<Longrightarrow> d \<in> set cd' \<Longrightarrow>
     d \<in> set cd \<or> (\<exists>i < length log. parent (fst (log ! i)) = d
        \<and> path_exists (disk (fst (foldl (undo_file env) (s, cd) (take i log)))) (fst (log ! i)))"
proof (induction log arbitrary: s' cd' rule: rev_induct)
  case Nil
  thus ?case by simp
next
  case (snoc x xs)
  obtain sm cm where mid: "foldl (undo_file env) (s, cd) xs = (sm, cm)"
    by (cases "foldl (undo_file env) (s, cd) xs")
  obtain np orig where x: "x = (np, orig)" by (cases x)
  from snoc.prems(1) mid x have step: "undo_file env (sm, cm) (np, orig) = (s', cd')" by simp
  show ?case
  proof (cases "d \<in> set cm")
    case True
    from snoc.IH [OF mid True] show ?thesis
    proof
      assume "d \<in> set cd" thus ?thesis ..
    next
      assume "\<exists>i < length xs. parent (fst (xs ! i)) = d
        \<and> path_exists (disk (fst (foldl (undo_file env) (s, cd) (take i xs)))) (fst (xs ! i))"
      then obtain i where "i < length xs" "parent (fst (xs ! i)) = d"
        "path_exists (disk (fst (foldl (undo_file env) (s, cd) (take i xs)))) (fst (xs ! i))"
        by blast
      hence "i < length (xs @ [x]) \<and> parent (fst ((xs @ [x]) ! i)) = d
        \<and> path_exists (disk (fst (foldl (undo_file env) (s, cd) (take i (xs @ [x])))))
             (fst ((xs @ [x]) ! i))"
        by (simp add: nth_append)
      thus ?thesis by blast
    qed
  next
    case False
    with undo_file_dirs [OF step snoc.prems(2)]
    have "path_exists (disk sm) np" and "parent np = d"
      by auto
    hence "length xs < length (xs @ [x]) \<and> parent (fst ((xs @ [x]) ! length xs)) = d
        \<and> path_exists (disk (fst (foldl (undo_file env) (s, cd) (take (length xs) (xs @ [x])))))
             (fst ((xs @ [x]) ! length xs))"
      by (simp add: mid x)
    thus ?thesis by blast
  qed
qed

lemma remove_if_empty_step:
  assumes "remove_if_empty env (s, n) d = (s', n')"
  shows "disk s' = disk s
       \<or> (is_dir (disk s) d \<and> children (disk s) d = [] \<and> disk s' = AList.delete d (disk s))"
  using assms
  by (auto simp: remove_if_empty_def py_exists_def iterdir_def rmdir_def is_dir_def update_status_def
      split: if_splits option.splits node.splits sum.splits)

lemma cleanup_changes:
  "foldl (remove_if_empty env) (s, n) ds = (s', n') \<Longrightarrow> lookup (disk s') p \<noteq> lookup (disk s) p \<Longrightarrow>
     lookup (disk s') p = None
   \<and> (\<exists>i < length ds. ds ! i = p
        \<and> is_dir (disk (fst (foldl (remove_if_empty env) (s, n) (take i ds)))) p
        \<and> children (disk (fst (foldl (remove_if_empty env) (s, n) (take i ds)))) p = [])"
proof (induction ds arbitrary: s' n' rule: rev_induct)
  case Nil
  thus ?case by simp
next
  case (snoc d ds)
  obtain sm nm where mid: "foldl (remove_if_empty env) (s, n) ds = (sm, nm)"
    by (cases "foldl (remove_if_empty env) (s, n) ds")
  from snoc.prems(1) mid have step: "remove_if_empty env (sm, nm) d = (s', n')" by simp
  show ?case
  proof (cases "lookup (disk s') p = lookup (disk sm) p")
    case True
    with snoc.prems(2) have "lookup (disk sm) p \<noteq> lookup (disk s) p" by simp
    from snoc.IH [OF mid this] obtain i where i: "lookup (disk sm) p = None" "i < length ds"
      "ds ! i = p" "is_dir (disk (fst (foldl (remove_if_empty env) (s, n) (take i ds)))) p"
      "children (disk (fst (foldl (remove_if_empty env) (s, n) (take i ds)))) p = []"
      by blast
    hence "i < length (ds @ [d]) \<and> (ds @ [d]) ! i = p
        \<and> is_dir (disk (fst (foldl (remove_if_empty env) (s, n) (take i (ds @ [d]))))) p
        \<and> children (disk (fst (foldl (remove_if_empty env) (s, n) (take i (ds @ [d]))))) p = []"
      by (simp add: nth_append)
    with True i(1) show ?thesis by auto
  next
    case False
    with remove_if_empty_step [OF step]
    have r: "is_dir (disk sm) d" "children (disk sm) d = []" "disk s' = AList.delete d (disk sm)"
      by auto
    with False have pd: "p = d" by (auto simp: lookup_delete split: if_splits)
    from r pd have "length ds < length (ds @ [d]) \<and> (ds @ [d]) ! length ds = p
        \<and> is_dir (disk (fst (foldl (remove_if_empty env) (s, n) (take (length ds) (ds @ [d]))))) p
        \<and> children (disk (fst (foldl (remove_if_empty env) (s, n) (take (length ds) (ds @ [d]))))) p = []"
      by (simp add: mid)
    moreover from r pd have "lookup (disk s') p = None" by (simp add: lookup_delete)
    ultimately show ?thesis by blast
  qed
qed

lemma undo_sort_disk:
  assumes "undo_data st \<noteq> []"
    and "reverse_moves env (update_status st UndoingLastSort) = (st2, category_dirs)"
    and "remove_empty_dirs env st2 category_dirs = (st3, removed_dirs)"
  shows "disk (undo_sort env st) = disk st3"
  using assms by (simp add: undo_sort_def update_status_def)

text \<open>
  C7. In the cleanup phase of an undo, every path whose entry differs between the start
  and the end of the phase has been removed, is one of the collected directories, and
  was an existing directory without any entry in it when the loop reached it. Every
  collected directory is the parent of a destination of the log that existed when its
  reversal was attempted. Nothing else is removed or changed by the cleanup.
\<close>

theorem cleanup_removes_only_empty_touched_dirs:
  assumes "undo_data st \<noteq> []"
    and "reverse_moves env (update_status st UndoingLastSort) = (st2, category_dirs)"
    and "remove_empty_dirs env st2 category_dirs = (st3, removed_dirs)"
  shows "disk (undo_sort env st) = disk st3
       \<and> (\<forall>p. lookup (disk st3) p \<noteq> lookup (disk st2) p \<longrightarrow>
              lookup (disk st3) p = None
            \<and> (\<exists>i < length category_dirs. category_dirs ! i = p
                  \<and> is_dir (disk (cleanup_state env st2 category_dirs i)) p
                  \<and> children (disk (cleanup_state env st2 category_dirs i)) p = []))
       \<and> (\<forall>d \<in> set category_dirs. \<exists>i < length (undo_data st).
              parent (fst (undo_data st ! i)) = d
            \<and> path_exists (disk (reversal_state env (update_status st UndoingLastSort) i))
                 (fst (undo_data st ! i)))"
proof (intro conjI allI impI ballI)
  show "disk (undo_sort env st) = disk st3" using assms by (rule undo_sort_disk)
next
  fix p assume "lookup (disk st3) p \<noteq> lookup (disk st2) p"
  with assms(3) have "lookup (disk st3) p = None
   \<and> (\<exists>i < length category_dirs. category_dirs ! i = p
        \<and> is_dir (disk (fst (foldl (remove_if_empty env) (st2, 0) (take i category_dirs)))) p
        \<and> children (disk (fst (foldl (remove_if_empty env) (st2, 0) (take i category_dirs)))) p = [])"
    unfolding remove_empty_dirs_def by (rule cleanup_changes)
  thus "lookup (disk st3) p = None"
    and "\<exists>i < length category_dirs. category_dirs ! i = p
                  \<and> is_dir (disk (cleanup_state env st2 category_dirs i)) p
                  \<and> children (disk (cleanup_state env st2 category_dirs i)) p = []"
    by (simp_all add: cleanup_state_def)
next
  fix d assume d: "d \<in> set category_dirs"
  let ?s1 = "update_status st UndoingLastSort"
  have u: "undo_data ?s1 = undo_data st" by (simp add: update_status_def)
  from assms(2) have "foldl (undo_file env) (?s1, []) (undo_data st) = (st2, category_dirs)"
    by (simp add: reverse_moves_def u)
  from touched_dirs [OF this d]
  show "\<exists>i < length (undo_data st).
          parent (fst (undo_data st ! i)) = d
        \<and> path_exists (disk (reversal_state env ?s1 i)) (fst (undo_data st ! i))"
    by (simp add: reversal_state_def u)
qed

theorem cleanup_removes_only_empty_touched_dirs_witness:
  "undo_data mixed_sorted \<noteq> []
   \<and> disk (undo_sort never mixed_sorted) = disk mixed_cleaned
   \<and> lookup (disk mixed_cleaned) [''d'', ''Images''] = None
   \<and> (\<exists>i < length [[''d'', ''Images''], [''d'', ''Documents'']].
          [[''d'', ''Images''], [''d'', ''Documents'']] ! i = [''d'', ''Images'']
        \<and> is_dir (disk (cleanup_state never mixed_reversed
                           [[''d'', ''Images''], [''d'', ''Documents'']] i)) [''d'', ''Images'']
        \<and> children (disk (cleanup_state never mixed_reversed
                             [[''d'', ''Images''], [''d'', ''Documents'']] i)) [''d'', ''Images'']
            = [])
   \<and> (\<exists>i < length (undo_data mixed_sorted).
          parent (fst (undo_data mixed_sorted ! i)) = [''d'', ''Images'']
        \<and> path_exists
            (disk (reversal_state never (update_status mixed_sorted UndoingLastSort) i))
            (fst (undo_data mixed_sorted ! i)))"
proof -
  have a: "undo_data mixed_sorted \<noteq> []" by (simp add: mixed_sorted_def)
  have b: "reverse_moves never (update_status mixed_sorted UndoingLastSort)
             = (mixed_reversed, [[''d'', ''Images''], [''d'', ''Documents'']])"
    by code_simp
  have c: "remove_empty_dirs never mixed_reversed [[''d'', ''Images''], [''d'', ''Documents'']]
             = (mixed_cleaned, 2)"
    by code_simp
  have d: "lookup (disk mixed_cleaned) [''d'', ''Images'']
             \<noteq> lookup (disk mixed_reversed) [''d'', ''Images'']"
    by code_simp
  have e: "[''d'', ''Images''] \<in> set [[''d'', ''Images''], [''d'', ''Documents'']]" by simp
  note t = cleanup_removes_only_empty_touched_dirs [OF a b c]
  from t have 1: "disk (undo_sort never mixed_sorted) = disk mixed_cleaned" by (rule conjunct1)
  from t [THEN conjunct2, THEN conjunct1, rule_format, OF d]
  have 2: "lookup (disk mixed_cleaned) [''d'', ''Images''] = None
     \<and> (\<exists>i < length [[''d'', ''Images''], [''d'', ''Documents'']].
          [[''d'', ''Images''], [''d'', ''Documents'']] ! i = [''d'', ''Images'']
        \<and> is_dir (disk (cleanup_state never mixed_reversed
                           [[''d'', ''Images''], [''d'', ''Documents'']] i)) [''d'', ''Images'']
        \<and> children (disk (cleanup_state never mixed_reversed
                             [[''d'', ''Images''], [''d'', ''Documents'']] i)) [''d'', ''Images'']
            = [])" .
  from t [THEN conjunct2, THEN conjunct2, rule_format, OF e]
  have 3: "\<exists>i < length (undo_data mixed_sorted).
          parent (fst (undo_data mixed_sorted ! i)) = [''d'', ''Images'']
        \<and> path_exists
            (disk (reversal_state never (update_status mixed_sorted UndoingLastSort) i))
            (fst (undo_data mixed_sorted ! i))" .
  from a 1 2 3 show ?thesis by (intro conjI) (erule conjunct1 conjunct2 | assumption)+
qed

end
